theory Spec2Isabelle
  imports Main "HOL-Library.Word" "HOL-Library.Sublist"
begin

unbundle bit_operations_syntax

section \<open>The translator of Tri.cxx as HOL functions\<close>

text \<open>
  The program is one C file: a loader (\<open>read_src\<close>), a lowerer (\<open>pass1\<close>), a sizer
  (\<open>asm_passA\<close>) and an emitter (\<open>asm_passB\<close>) over global arrays. The file holds the
  program more than once; the model follows its first complete copy (lines 1 to 452),
  the one that has the two-line extension forms.

  A C string is modelled by the list of its characters before the terminating NUL.
  \<open>die\<close>, \<open>dieSrc\<close> and \<open>dieAsm\<close> end the process; the model returns the diagnostic as
  the \<open>Inl\<close> of a sum. A read through a null pointer is the error \<open>NullDeref\<close>.
  \<open>malloc\<close>, \<open>fopen\<close> (of the source and of the output) and \<open>fputc\<close> are taken
  to succeed.
\<close>

subsection \<open>Constants and diagnostics\<close>

definition MAXL :: nat where "MAXL = 512"
definition LNSZ :: nat where "LNSZ = 80"
definition MAXLB :: nat where "MAXLB = 128"
definition MAXS :: nat where "MAXS = 16"

datatype msg =
    TooManySourceLines
  | LjmpNeedsTwoArgs
  | PowerGateArgs
  | SmtWeightArgs
  | PatchBankArgs
  | ScopeOverflow
  | UnmatchedScopeClose
  | BorrowError
  | Asm1Overflow
  | HeadOffset
  | SprintfOverflow
  | UnclosedScopes
  | Lines2Overflow
  | DuplicateLabel string
  | TooManyLabels
  | UndefinedLabel string
  | UndefinedLabelNull
  | MalformedHex string
  | MalformedDec string
  | DBOutOfRange
  | FillOutOfRange
  | IntOutOfRange
  | UnknownDirective string

text \<open>
  \<open>DieSrc idx m\<close> and \<open>DieAsm sidx m\<close> carry the zero-based index of the source line
  the diagnostic cites (the program prints it plus one, and the text \<open>src[idx]\<close>).
  \<open>DieAsmWild\<close> is \<open>dieAsm\<close> called with an index outside the provenance arrays.
\<close>

datatype error =
    Die msg
  | DieSrc nat msg
  | DieAsm nat msg
  | DieAsmWild msg
  | NullDeref

subsection \<open>The C library functions the program calls\<close>

definition is_blank :: "char \<Rightarrow> bool" where
  "is_blank c = (c = CHR '' '' \<or> c = CHR 0x09)"

definition is_trail :: "char \<Rightarrow> bool" where
  "is_trail c = (c = CHR '' '' \<or> c = CHR 0x09 \<or> c = CHR 0x0D \<or> c = CHR 0x0A)"

text \<open>\<open>trim\<close>: skip leading blanks and tabs, cut trailing blanks, tabs, CR and LF.\<close>

definition trim :: "string \<Rightarrow> string" where
  "trim s = rev (dropWhile is_trail (rev (dropWhile is_blank s)))"

text \<open>
  \<open>trim\<close> cuts in place: the characters it cuts at the end are overwritten with NUL
  in the buffer it is given, the blanks at the start stay (the result only points past
  them). \<open>trim_buf s\<close> is what the buffer holds afterwards. The loader stores trimmed
  lines, which \<open>trim\<close> leaves as they are, so that pass 1 does not change \<open>src\<close>; pass A
  trims the lines of \<open>lines2\<close>, which can end in white space.
\<close>

definition trim_buf :: "string \<Rightarrow> string" where
  "trim_buf s = takeWhile is_blank s @ trim s"

text \<open>\<open>tolower\<close> in the C locale.\<close>

definition tolower :: "char \<Rightarrow> char" where
  "tolower c = (let n = (of_char c :: nat) in
     if 65 \<le> n \<and> n \<le> 90 then char_of (n + 32) else c)"

text \<open>The delimiters of every \<open>strtok\<close> call of the program: blank, tab and comma.\<close>

definition is_delim :: "char \<Rightarrow> bool" where
  "is_delim c = (c = CHR '' '' \<or> c = CHR 0x09 \<or> c = CHR '','')"

definition non_delim :: "char \<Rightarrow> bool" where
  "non_delim c = (\<not> is_delim c)"

text \<open>
  \<open>strtok_r\<close> on the rest of a line: the next token and the new save pointer, or
  \<open>None\<close> for the null pointer when only delimiters are left.
\<close>

definition strtok_r :: "string \<Rightarrow> (string \<times> string) option" where
  "strtok_r s = (let s1 = dropWhile is_delim s in
     if s1 = [] then None
     else Some (takeWhile non_delim s1, drop 1 (dropWhile non_delim s1)))"

text \<open>All the tokens the loop \<open>while (strtok_r(NULL, ...))\<close> returns, in order.\<close>

function all_toks :: "string \<Rightarrow> string list" where
  "all_toks s = (case strtok_r s of None \<Rightarrow> [] | Some (t, r) \<Rightarrow> t # all_toks r)"
  by pat_completeness auto
termination
proof (relation "measure length")
  show "wf (measure length)" by simp
next
  fix s :: string and x t r
  assume "strtok_r s = Some x" and "(t, r) = x"
  then have r: "r = drop 1 (dropWhile non_delim (dropWhile is_delim s))"
    and ne: "dropWhile is_delim s \<noteq> []"
    by (auto simp: strtok_r_def Let_def split: if_splits)
  have "length (dropWhile non_delim (dropWhile is_delim s)) \<le> length (dropWhile is_delim s)"
    by (rule length_dropWhile_le)
  moreover have "length (dropWhile is_delim s) \<le> length s"
    by (rule length_dropWhile_le)
  moreover have "0 < length (dropWhile is_delim s)"
    using ne by simp
  ultimately show "(r, s) \<in> measure length"
    unfolding r in_measure length_drop by linarith
qed

declare all_toks.simps [simp del]

definition isspace :: "char \<Rightarrow> bool" where
  "isspace c = (c = CHR '' '' \<or> (9 \<le> (of_char c :: nat) \<and> (of_char c :: nat) \<le> 13))"

text \<open>The value of a character as a digit; 36 when it is none.\<close>

definition digit_val :: "char \<Rightarrow> nat" where
  "digit_val c = (let n = (of_char c :: nat) in
     if 48 \<le> n \<and> n \<le> 57 then n - 48
     else if 97 \<le> n \<and> n \<le> 122 then n - 87
     else if 65 \<le> n \<and> n \<le> 90 then n - 55
     else 36)"

definition is_digit :: "nat \<Rightarrow> char \<Rightarrow> bool" where
  "is_digit base c = (digit_val c < base)"

definition digits_val :: "nat \<Rightarrow> string \<Rightarrow> nat" where
  "digits_val base ds = foldl (\<lambda>a c. a * base + digit_val c) 0 ds"

text \<open>\<open>0x\<close> or \<open>0X\<close> counts as a prefix only when a hexadecimal digit follows.\<close>

definition hex_prefix :: "string \<Rightarrow> bool" where
  "hex_prefix s = (case s of
     a # b # c # _ \<Rightarrow> a = CHR ''0'' \<and> (b = CHR ''x'' \<or> b = CHR ''X'') \<and> is_digit 16 c
   | _ \<Rightarrow> False)"

definition scan_sign :: "string \<Rightarrow> bool \<times> string" where
  "scan_sign s = (case s of
     [] \<Rightarrow> (False, s)
   | c # r \<Rightarrow> if c = CHR ''-'' then (True, r) else if c = CHR ''+'' then (False, r) else (False, s))"

text \<open>
  The scanner shared by \<open>strtoul\<close>, \<open>strtol\<close> and \<open>atoi\<close>: white space, an optional
  sign, the prefix of the base, then the longest run of digits. The result is the sign,
  the value of the digits and the text from the end pointer on; \<open>None\<close> when there is no
  digit, where the end pointer is the start of the string. Base 0 reads \<open>0x\<close> as
  hexadecimal, a leading \<open>0\<close> as octal, anything else as decimal.
\<close>

definition scan_int :: "nat \<Rightarrow> string \<Rightarrow> (bool \<times> nat \<times> string) option" where
  "scan_int base s =
     (let (neg, s2) = scan_sign (dropWhile isspace s);
          b = (if base = 0 then (if hex_prefix s2 then 16 else if take 1 s2 = ''0'' then 8 else 10)
               else base);
          s3 = (if b = 16 \<and> hex_prefix s2 then drop 2 s2 else s2);
          ds = takeWhile (is_digit b) s3
      in if ds = [] then None else Some (neg, digits_val b ds, dropWhile (is_digit b) s3))"

text \<open>
  \<open>strtoul\<close> with a 64-bit \<open>unsigned long\<close> (LP64): a value out of range is
  \<open>ULONG_MAX\<close>, a minus sign negates modulo \<open>2^64\<close>.
\<close>

definition strtoul :: "nat \<Rightarrow> string \<Rightarrow> (64 word \<times> string) option" where
  "strtoul base s = (case scan_int base s of
     None \<Rightarrow> None
   | Some (neg, v, e) \<Rightarrow>
       Some (if v > 2 ^ 64 - 1 then - 1 else if neg then - of_nat v else of_nat v, e))"

text \<open>\<open>strtol\<close> with a 64-bit \<open>long\<close>: the value is clamped to the range of \<open>long\<close>.\<close>

definition strtol :: "nat \<Rightarrow> string \<Rightarrow> (int \<times> string) option" where
  "strtol base s = (case scan_int base s of
     None \<Rightarrow> None
   | Some (neg, v, e) \<Rightarrow>
       Some (if neg then max (- (2 ^ 63)) (- int v) else min (2 ^ 63 - 1) (int v), e))"

text \<open>\<open>atoi\<close> is \<open>(int) strtol(s, NULL, 10)\<close>, returned by \<open>line_sz\<close> as \<open>uint32_t\<close>.\<close>

definition atoi :: "string \<Rightarrow> 32 word" where
  "atoi s = (case strtol 10 s of None \<Rightarrow> 0 | Some (v, e) \<Rightarrow> word_of_int v)"

definition digit_char :: "nat \<Rightarrow> char" where
  "digit_char d = char_of (48 + d)"

text \<open>\<open>sprintf\<close> of \<open>%ld\<close> for a value that is not negative.\<close>

function show_dec :: "nat \<Rightarrow> string" where
  "show_dec n = (if n < 10 then [digit_char n] else show_dec (n div 10) @ [digit_char (n mod 10)])"
  by pat_completeness auto
termination
  by (relation "measure id") auto

subsection \<open>Immediates\<close>

text \<open>
  \<open>parseImm\<close> returns the message of its \<open>dieAsm\<close>; the caller adds the source line.
  The result is the \<open>unsigned long\<close> cut to the 32 bits of \<open>unsigned\<close>.
\<close>

definition parseImm :: "string \<Rightarrow> msg + 32 word" where
  "parseImm s =
     (if take 2 s = ''0x'' then
        (case strtoul 16 (drop 2 s) of
           None \<Rightarrow> Inl (MalformedHex s)
         | Some (v, e) \<Rightarrow> if e \<noteq> [] then Inl (MalformedHex s) else Inr (ucast v))
      else
        (case strtoul 10 s of
           None \<Rightarrow> Inl (MalformedDec s)
         | Some (v, e) \<Rightarrow> Inr (ucast v)))"

subsection \<open>The source loader\<close>

text \<open>
  \<open>fgets(buf, n, f)\<close> on the unread text of the file: at most \<open>n - 1\<close> characters,
  ending after the first newline; \<open>None\<close> at the end of the file. The second component
  is the text left unread. The buffer is then read as a C string, up to its first NUL.
\<close>

definition fgets :: "nat \<Rightarrow> string \<Rightarrow> (string \<times> string) option" where
  "fgets n f = (if f = [] then None
     else let k = min (n - 1) (Suc (length (takeWhile (\<lambda>c. c \<noteq> CHR 0x0A) f)))
          in Some (take k f, drop k f))"

definition c_str :: "string \<Rightarrow> string" where
  "c_str buf = takeWhile (\<lambda>c. c \<noteq> CHR 0x00) buf"

text \<open>The loop of \<open>read_src\<close>; \<open>acc\<close> is \<open>src[0..sl)\<close>.\<close>

function read_lines :: "string \<Rightarrow> string list \<Rightarrow> error + string list" where
  "read_lines f acc = (case fgets LNSZ f of
     None \<Rightarrow> Inr acc
   | Some (buf, rest) \<Rightarrow>
       (let t = trim (c_str buf) in
        if t \<noteq> [] \<and> hd t \<noteq> CHR '';'' then
          (if length acc \<ge> MAXL then Inl (Die TooManySourceLines)
           else read_lines rest (acc @ [t]))
        else read_lines rest acc))"
  by pat_completeness auto
termination
  by (relation "measure (\<lambda>(f, acc). length f)")
    (auto simp: fgets_def LNSZ_def Let_def split: if_splits)

declare read_lines.simps [simp del]

definition read_src :: "string \<Rightarrow> error + string list" where
  "read_src f = read_lines f []"

subsection \<open>The global state\<close>

record BorrowFrame =
  bm :: bool
  bi :: bool

record Label =
  name :: string
  addr :: "32 word"

text \<open>
  The output file: the position of the next write and the bytes it holds. A write past
  the end fills the gap with zero bytes, as the file reads back afterwards.
\<close>

record outfile =
  fpos :: nat
  fdata :: "8 word list"

text \<open>
  The arrays of the program with their counters: \<open>sl\<close>, \<open>al\<close>, \<open>ln2\<close> and \<open>nl2\<close> are
  the lengths of \<open>src\<close>, \<open>asm1\<close> (and \<open>asmSrcLine\<close>), \<open>lines2\<close> (and \<open>lines2AsmIdx\<close>)
  and \<open>lbl2\<close>. \<open>bstack\<close> has its \<open>MAXS\<close> frames from the start.
\<close>

record globals =
  src :: "string list"
  asm1 :: "string list"
  asmSrcLine :: "nat list"
  lines2 :: "string list"
  lines2AsmIdx :: "nat list"
  bstack :: "BorrowFrame list"
  sp :: nat
  lbl2 :: "Label list"
  out :: outfile

definition no_borrow :: BorrowFrame where
  "no_borrow = \<lparr>bm = False, bi = False\<rparr>"

definition init_globals :: "string list \<Rightarrow> globals" where
  "init_globals ls = \<lparr>src = ls, asm1 = [], asmSrcLine = [], lines2 = [], lines2AsmIdx = [],
     bstack = replicate MAXS no_borrow, sp = 0, lbl2 = [], out = \<lparr>fpos = 0, fdata = []\<rparr>\<rparr>"

text \<open>\<open>dieAsm\<close> finds the source line through both provenance arrays.\<close>

definition dieAsm :: "globals \<Rightarrow> nat \<Rightarrow> msg \<Rightarrow> error" where
  "dieAsm g aidx m =
     (if aidx < length (lines2AsmIdx g) \<and> lines2AsmIdx g ! aidx < length (asmSrcLine g)
      then DieAsm (asmSrcLine g ! (lines2AsmIdx g ! aidx)) m
      else DieAsmWild m)"

text \<open>A \<open>for\<close> loop over line indices that stops at the first diagnostic.\<close>

fun for_lines :: "(nat \<Rightarrow> 's \<Rightarrow> error + 's) \<Rightarrow> nat list \<Rightarrow> 's \<Rightarrow> error + 's" where
  "for_lines body [] s = Inr s"
| "for_lines body (i # is) s =
     (case body i s of Inl e \<Rightarrow> Inl e | Inr s' \<Rightarrow> for_lines body is s')"

subsection \<open>Pass 1: the lowerer\<close>

text \<open>
  \<open>call_form nm lower line\<close> is the test
  \<open>!strncmp(lower, nm, strlen(nm)) && line[strlen(line)-1] == ')'\<close>, and
  \<open>payload n line\<close> is \<open>line + n\<close> once the closing parenthesis is cut.
\<close>

definition call_form :: "string \<Rightarrow> string \<Rightarrow> string \<Rightarrow> bool" where
  "call_form nm lower line = (prefix nm lower \<and> line \<noteq> [] \<and> last line = CHR '')'')"

definition payload :: "nat \<Rightarrow> string \<Rightarrow> string" where
  "payload n line = drop n (butlast line)"

text \<open>\<open>strchr(p, ',')\<close> and \<open>*c = 0\<close>: the text before the first comma and the text after it.\<close>

definition split_at :: "char \<Rightarrow> string \<Rightarrow> (string \<times> string) option" where
  "split_at d p = (if d \<in> set p
     then Some (takeWhile (\<lambda>c. c \<noteq> d) p, drop 1 (dropWhile (\<lambda>c. c \<noteq> d) p))
     else None)"

text \<open>\<open>snprintf(tmp, LNSZ, ...)\<close> keeps at most \<open>LNSZ - 1\<close> characters.\<close>

definition snprintf :: "string \<Rightarrow> string" where
  "snprintf s = take (LNSZ - 1) s"

text \<open>
  \<open>asmSrcLine[al] = i; strcpy(asm1[al++], a)\<close>. The lists have no bound of their own: a
  length above \<open>MAXL\<close> is the program writing past the end of its arrays.
\<close>

definition push1 :: "nat \<Rightarrow> string \<Rightarrow> globals \<Rightarrow> globals" where
  "push1 i a g = g\<lparr>asm1 := asm1 g @ [a], asmSrcLine := asmSrcLine g @ [i]\<rparr>"

definition push2 :: "nat \<Rightarrow> string \<Rightarrow> string \<Rightarrow> globals \<Rightarrow> globals" where
  "push2 i a b g = push1 i b (push1 i a g)"

text \<open>The forms \<open>unit,op\<close> of two arguments: \<open>DB unit,trim(op)\<close> after the \<open>INT\<close> line.\<close>

definition two_args :: "nat \<Rightarrow> string \<Rightarrow> msg \<Rightarrow> nat \<Rightarrow> string \<Rightarrow> globals \<Rightarrow> error + globals" where
  "two_args i opc m n line g = (case split_at (CHR '','') (payload n line) of
     None \<Rightarrow> Inl (DieSrc i m)
   | Some (a, b) \<Rightarrow> Inr (push2 i opc (snprintf (''DB '' @ a @ '','' @ trim b)) g))"

definition one_arg :: "nat \<Rightarrow> string \<Rightarrow> nat \<Rightarrow> string \<Rightarrow> globals \<Rightarrow> error + globals" where
  "one_arg i opc n line g = Inr (push2 i opc (snprintf (''DB '' @ payload n line)) g)"

text \<open>
  The second half of the loop body, from \<open>// Borrow & scopes\<close> on. \<open>line\<close> is the line
  as the one-line rewrites left it, \<open>lower\<close> the case-folded line as read.
\<close>

definition pass1_rest :: "nat \<Rightarrow> string \<Rightarrow> string \<Rightarrow> globals \<Rightarrow> error + globals" where
  "pass1_rest i lower line g =
     (if line = ''{'' then
        (if sp g + 1 \<ge> MAXS then Inl (DieSrc i ScopeOverflow)
         else Inr (g\<lparr>sp := sp g + 1, bstack := (bstack g)[sp g + 1 := no_borrow]\<rparr>))
      else if line = ''}'' then
        (if sp g = 0 then Inl (DieSrc i UnmatchedScopeClose)
         else Inr (g\<lparr>sp := sp g - 1\<rparr>))
      else if prefix ''let &mut'' line then
        (if bm (bstack g ! sp g) \<or> bi (bstack g ! sp g) then Inl (DieSrc i BorrowError)
         else Inr (g\<lparr>bstack := (bstack g)[sp g := (bstack g ! sp g)\<lparr>bm := True\<rparr>]\<rparr>))
      else if prefix ''let &'' line then
        (if bm (bstack g ! sp g) then Inl (DieSrc i BorrowError)
         else Inr (g\<lparr>bstack := (bstack g)[sp g := (bstack g ! sp g)\<lparr>bi := True\<rparr>]\<rparr>))
      else if line = ''tape_start()'' then
        (if length (asm1 g) + 2 \<ge> MAXL then Inl (DieSrc i Asm1Overflow)
         else Inr (push2 i ''ORG 0x500'' ''DB 0xBE,0x00,0x05'' g))
      else if line = ''load()'' then
        (if length (asm1 g) + 1 \<ge> MAXL then Inl (DieSrc i Asm1Overflow)
         else Inr (push1 i ''DB 0x8A,0x04'' g))
      else if line = ''store()'' then
        (if length (asm1 g) + 1 \<ge> MAXL then Inl (DieSrc i Asm1Overflow)
         else Inr (push1 i ''DB 0x88,0x04'' g))
      else if prefix ''head +='' line then
        (case strtol 0 (drop 7 line) of
           None \<Rightarrow> Inl (DieSrc i HeadOffset)
         | Some (v, e) \<Rightarrow>
             if v < 0 \<or> v > 255 then Inl (DieSrc i HeadOffset)
             else (let tmp = ''DB 0x83,0xC6,'' @ show_dec (nat v) in
               if length tmp \<ge> LNSZ then Inl (DieSrc i SprintfOverflow)
               else if length (asm1 g) + 1 \<ge> MAXL then Inl (DieSrc i Asm1Overflow)
               else Inr (push1 i tmp g)))
      else if call_form ''org_set('' lower line then one_arg i ''INT 0x05'' 8 line g
      else if length (asm1 g) \<ge> MAXL then Inl (DieSrc i Asm1Overflow)
      else Inr (push1 i line g))"

text \<open>
  The body of the loop for source line \<open>i\<close>. The first seven forms rewrite the line in
  place and go on to the second half; the extension forms append their two lines with
  no test of \<open>al\<close> and \<open>continue\<close>.
\<close>

definition pass1_line :: "nat \<Rightarrow> globals \<Rightarrow> error + globals" where
  "pass1_line i g =
     (let line = trim (src g ! i); lower = map tolower line in
      if call_form ''org('' lower line then pass1_rest i lower (''ORG '' @ payload 4 line) g
      else if call_form ''db('' lower line then pass1_rest i lower (''DB '' @ payload 3 line) g
      else if call_form ''fill('' lower line then pass1_rest i lower (''FILL '' @ payload 5 line) g
      else if call_form ''int('' lower line then pass1_rest i lower (''INT '' @ payload 4 line) g
      else if call_form ''jmp('' lower line then pass1_rest i lower (''JMP '' @ payload 4 line) g
      else if call_form ''call('' lower line then pass1_rest i lower (''CALL '' @ payload 5 line) g
      else if call_form ''ljmp('' lower line then
        (case split_at (CHR '','') (payload 5 line) of
           None \<Rightarrow> Inl (DieSrc i LjmpNeedsTwoArgs)
         | Some (a, b) \<Rightarrow> pass1_rest i lower (''LJMP '' @ a @ '':'' @ b) g)
      else if call_form ''fold_mode('' lower line then one_arg i ''INT 0x01'' 10 line g
      else if call_form ''power_gate('' lower line then
        two_args i ''INT 0x02'' PowerGateArgs 11 line g
      else if call_form ''bist_start('' lower line then one_arg i ''INT 0x10'' 11 line g
      else if call_form ''smt_weight('' lower line then
        two_args i ''INT 0x20'' SmtWeightArgs 11 line g
      else if call_form ''mme('' lower line then one_arg i ''INT 0x30'' 4 line g
      else if call_form ''patch_bank('' lower line then
        two_args i ''INT 0x03'' PatchBankArgs 11 line g
      else if call_form ''patch_commit('' lower line then one_arg i ''INT 0x04'' 13 line g
      else if call_form ''perf_sample('' lower line then one_arg i ''INT 0x40'' 12 line g
      else if call_form ''link_config('' lower line then one_arg i ''INT 0x50'' 12 line g
      else pass1_rest i lower line g)"

definition pass1 :: "globals \<Rightarrow> error + globals" where
  "pass1 g0 =
     (case for_lines pass1_line [0..<length (src g0)]
             (g0\<lparr>sp := 0, bstack := (bstack g0)[0 := no_borrow]\<rparr>) of
        Inl e \<Rightarrow> Inl e
      | Inr g \<Rightarrow>
          if sp g \<noteq> 0 then Inl (DieSrc (length (src g) - 1) UnclosedScopes) else Inr g)"

subsection \<open>Pass A: the sizer\<close>

definition line_sz :: "string \<Rightarrow> error + 32 word" where
  "line_sz ln = (case strtok_r ln of
     None \<Rightarrow> Inr 0
   | Some (tok, rest) \<Rightarrow>
       if last tok = CHR '':'' then Inr 0
       else if tok = ''ORG'' then Inr 0
       else if tok = ''DB'' then Inr (of_nat (length (all_toks rest)))
       else if tok = ''FILL'' then
         (case strtok_r rest of None \<Rightarrow> Inl NullDeref | Some (n, r) \<Rightarrow> Inr (atoi n))
       else if tok = ''INT'' then Inr 2
       else if tok = ''JMP'' \<or> tok = ''CALL'' then Inr 5
       else if tok = ''LJMP'' then Inr 6
       else Inr 0)"

text \<open>
  \<open>recordLabel\<close> compares the name as written with the names in the table, and stores
  its first 15 characters.
\<close>

definition recordLabel :: "string \<Rightarrow> 32 word \<Rightarrow> nat \<Rightarrow> globals \<Rightarrow> error + globals" where
  "recordLabel nm pc aidx g =
     (if nm \<in> set (map name (lbl2 g)) then Inl (dieAsm g aidx (DuplicateLabel nm))
      else if length (lbl2 g) \<ge> MAXLB then Inl (dieAsm g aidx TooManyLabels)
      else Inr (g\<lparr>lbl2 := lbl2 g @ [\<lparr>name = take 15 nm, addr = pc\<rparr>]\<rparr>))"

text \<open>
  \<open>find_lbl\<close> on the operand \<open>strtok_r\<close> returned; \<open>None\<close> is the null pointer of a
  line with no operand: with an empty table the loop compares nothing and the function
  ends in \<open>dieAsm\<close>, otherwise the first \<open>strcmp\<close> reads through the null pointer.
\<close>

definition find_lbl :: "string option \<Rightarrow> nat \<Rightarrow> globals \<Rightarrow> error + 32 word" where
  "find_lbl nmo aidx g = (case nmo of
     None \<Rightarrow> if lbl2 g = [] then Inl (dieAsm g aidx UndefinedLabelNull) else Inl NullDeref
   | Some nm \<Rightarrow>
       (case find (\<lambda>l. name l = nm) (lbl2 g) of
          Some l \<Rightarrow> Inr (addr l)
        | None \<Rightarrow> Inl (dieAsm g aidx (UndefinedLabel nm))))"

text \<open>The first loop of \<open>asm_passA\<close>: one \<open>lines2\<close> entry for \<open>asm1[i]\<close>.\<close>

definition clone_line :: "nat \<Rightarrow> globals \<Rightarrow> error + globals" where
  "clone_line i g =
     (if length (lines2 g) \<ge> MAXL then Inl (dieAsm g i Lines2Overflow)
      else Inr (g\<lparr>lines2 := lines2 g @ [asm1 g ! i], lines2AsmIdx := lines2AsmIdx g @ [i]\<rparr>))"

text \<open>
  The second loop, on the program counter and the globals. \<open>trim(lines2[i])\<close> cuts the
  line in \<open>lines2\<close> itself; the tokens are read from a copy of what \<open>trim\<close> returns, and
  \<open>line_sz\<close> reads the line as \<open>trim\<close> left it.
\<close>

definition passA_line :: "nat \<Rightarrow> 32 word \<times> globals \<Rightarrow> error + 32 word \<times> globals" where
  "passA_line i = (\<lambda>(pc, g0).
     let tmp = trim (lines2 g0 ! i);
         g = g0\<lparr>lines2 := (lines2 g0)[i := trim_buf (lines2 g0 ! i)]\<rparr>
     in case strtok_r tmp of
       None \<Rightarrow> Inr (pc, g)
     | Some (tok, save) \<Rightarrow>
         if last tok = CHR '':'' then
           (case recordLabel (butlast tok) pc i g of
              Inl e \<Rightarrow> Inl e
            | Inr g' \<Rightarrow> Inr (pc, g'))
         else
           (case line_sz (lines2 g ! i) of
              Inl e \<Rightarrow> Inl e
            | Inr n \<Rightarrow> Inr (pc + n, g)))"

definition asm_passA :: "globals \<Rightarrow> error + 32 word \<times> globals" where
  "asm_passA g0 = (case for_lines clone_line [0..<length (asm1 g0)] g0 of
     Inl e \<Rightarrow> Inl e
   | Inr g \<Rightarrow> for_lines passA_line [0..<length (lines2 g)] (0, g))"

subsection \<open>Pass B: the emitter\<close>

definition fputc :: "8 word \<Rightarrow> outfile \<Rightarrow> outfile" where
  "fputc b f = (let d = fdata f @ replicate (fpos f - length (fdata f)) 0 in
     \<lparr>fpos = fpos f + 1, fdata = (if fpos f < length d then d[fpos f := b] else d @ [b])\<rparr>)"

definition fseek :: "32 word \<Rightarrow> globals \<Rightarrow> globals" where
  "fseek pc g = g\<lparr>out := (out g)\<lparr>fpos := unat pc\<rparr>\<rparr>"

definition e8 :: "8 word \<Rightarrow> globals \<Rightarrow> globals" where
  "e8 b g = g\<lparr>out := fputc b (out g)\<rparr>"

definition e16 :: "16 word \<Rightarrow> globals \<Rightarrow> globals" where
  "e16 w g = e8 (ucast (drop_bit 8 w)) (e8 (ucast (w AND 0xFF)) g)"

definition e32 :: "32 word \<Rightarrow> globals \<Rightarrow> globals" where
  "e32 w g = e16 (ucast (drop_bit 16 w)) (e16 (ucast (w AND 0xFFFF)) g)"

text \<open>
  \<open>parseImm(strtok_r(NULL, ...), i)\<close>: the value and the new save pointer. With no
  token left \<open>parseImm\<close> reads through the null pointer.
\<close>

definition next_imm :: "globals \<Rightarrow> nat \<Rightarrow> string \<Rightarrow> error + 32 word \<times> string" where
  "next_imm g i save = (case strtok_r save of
     None \<Rightarrow> Inl NullDeref
   | Some (t, save') \<Rightarrow>
       (case parseImm t of Inl m \<Rightarrow> Inl (dieAsm g i m) | Inr v \<Rightarrow> Inr (v, save')))"

text \<open>The loop of \<open>DB\<close> over the operands left on the line.\<close>

fun emit_db :: "nat \<Rightarrow> string list \<Rightarrow> 32 word \<times> globals \<Rightarrow> error + 32 word \<times> globals" where
  "emit_db i [] s = Inr s"
| "emit_db i (v # vs) s =
     (case parseImm v of
        Inl m \<Rightarrow> Inl (dieAsm (snd s) i m)
      | Inr b \<Rightarrow>
          if b > 0xFF then Inl (dieAsm (snd s) i DBOutOfRange)
          else emit_db i vs (fst s + 1, e8 (ucast b) (snd s)))"

text \<open>One round of the loop of \<open>FILL\<close>.\<close>

definition fill_step :: "8 word \<Rightarrow> 32 word \<times> globals \<Rightarrow> 32 word \<times> globals" where
  "fill_step v = (\<lambda>(pc, g). (pc + 1, e8 v g))"

definition passB_line :: "nat \<Rightarrow> 32 word \<times> globals \<Rightarrow> error + 32 word \<times> globals" where
  "passB_line i = (\<lambda>(pc, g).
     case strtok_r (lines2 g ! i) of
       None \<Rightarrow> Inr (pc, g)
     | Some (tok, save) \<Rightarrow>
         if tok = ''ORG'' then
           (case next_imm g i save of
              Inl e \<Rightarrow> Inl e
            | Inr (v, r) \<Rightarrow> Inr (v, fseek v g))
         else if tok = ''DB'' then emit_db i (all_toks save) (pc, g)
         else if tok = ''FILL'' then
           (case next_imm g i save of
              Inl e \<Rightarrow> Inl e
            | Inr (cnt, r) \<Rightarrow>
                (case next_imm g i r of
                   Inl e \<Rightarrow> Inl e
                 | Inr (val, r') \<Rightarrow>
                     if val > 0xFF then Inl (dieAsm g i FillOutOfRange)
                     else Inr ((fill_step (ucast val) ^^ unat cnt) (pc, g))))
         else if tok = ''INT'' then
           (case next_imm g i save of
              Inl e \<Rightarrow> Inl e
            | Inr (imm, r) \<Rightarrow>
                if imm > 0xFF then Inl (dieAsm g i IntOutOfRange)
                else Inr (pc + 2, e8 (ucast imm) (e8 0xCD g)))
         else if tok = ''JMP'' \<or> tok = ''CALL'' then
           (let g1 = e8 (if hd tok = CHR ''J'' then 0xE9 else 0xE8) g in
            case find_lbl (map_option fst (strtok_r save)) i g1 of
              Inl e \<Rightarrow> Inl e
            | Inr dest \<Rightarrow> Inr (pc + 5, e32 (dest - (pc + 5)) g1))
         else if tok = ''LJMP'' then
           (let g1 = e8 0xEA g in
            case strtok_r save of
              None \<Rightarrow> Inl NullDeref
            | Some (p, r) \<Rightarrow>
                (case split_at (CHR '':'') p of
                   None \<Rightarrow> Inl NullDeref
                 | Some (a, sg) \<Rightarrow>
                     (case parseImm a of
                        Inl m \<Rightarrow> Inl (dieAsm g1 i m)
                      | Inr off \<Rightarrow>
                          (case parseImm sg of
                             Inl m \<Rightarrow> Inl (dieAsm g1 i m)
                           | Inr s \<Rightarrow> Inr (pc + 6, e16 (ucast s) (e32 off g1))))))
         else if last tok = CHR '':'' then Inr (pc, g)
         else Inl (dieAsm g i (UnknownDirective tok)))"

definition asm_passB :: "globals \<Rightarrow> error + 32 word \<times> globals" where
  "asm_passB g = for_lines passB_line [0..<length (lines2 g)] (0, g)"

text \<open>\<open>main\<close> on the text of the source file; the result holds the bytes of \<open>out.bin\<close>.\<close>

definition translate :: "string \<Rightarrow> error + globals" where
  "translate f = (case read_src f of
     Inl e \<Rightarrow> Inl e
   | Inr ls \<Rightarrow>
       (case pass1 (init_globals ls) of
          Inl e \<Rightarrow> Inl e
        | Inr g1 \<Rightarrow>
            (case asm_passA g1 of
               Inl e \<Rightarrow> Inl e
             | Inr (pcA, g2) \<Rightarrow>
                 (case asm_passB g2 of
                    Inl e \<Rightarrow> Inl e
                  | Inr (pcB, g3) \<Rightarrow> Inr g3))))"

section \<open>Properties\<close>

subsection \<open>Loops and the steps of pass 1\<close>

lemma for_lines_inv:
  assumes "for_lines body js s = Inr s'" and "P s"
    and "\<And>i t t'. i \<in> set js \<Longrightarrow> P t \<Longrightarrow> body i t = Inr t' \<Longrightarrow> P t'"
  shows "P s'"
  using assms
proof (induction js arbitrary: s)
  case Nil
  then show ?case by simp
next
  case (Cons j js)
  from Cons.prems(1) obtain t where t: "body j s = Inr t" and rest: "for_lines body js t = Inr s'"
    by (auto split: sum.splits)
  have "P t" using Cons.prems(2,3) t by auto
  then show ?case using Cons.IH [OF rest] Cons.prems(3) by auto
qed

lemma for_lines_append:
  "for_lines body (xs @ ys) s =
     (case for_lines body xs s of Inl e \<Rightarrow> Inl e | Inr t \<Rightarrow> for_lines body ys t)"
  by (induction xs arbitrary: s) (auto split: sum.splits)

lemma tolower_lets [simp]:
  "tolower CHR ''l'' = CHR ''l''" "tolower CHR ''e'' = CHR ''e''" "tolower CHR ''t'' = CHR ''t''"
  "tolower CHR ''{'' = CHR ''{''" "tolower CHR ''}'' = CHR ''}''"
  by (simp_all add: tolower_def)

lemma no_call_form_let:
  assumes "prefix ''le'' line"
  shows "\<not> call_form (c1 # c2 # nm) (map tolower line) line \<or> c1 = CHR ''l'' \<and> c2 = CHR ''e''"
proof -
  from assms obtain r where "line = ''le'' @ r" by (auto elim: prefixE)
  then show ?thesis by (auto simp: call_form_def)
qed

lemma pass1_line_let:
  assumes "prefix ''let &'' (trim (src g ! i))"
  shows "pass1_line i g = pass1_rest i (map tolower (trim (src g ! i))) (trim (src g ! i)) g"
proof -
  from assms obtain r where r: "trim (src g ! i) = ''let &'' @ r" by (auto elim: prefixE)
  show ?thesis
    by (simp add: pass1_line_def Let_def r call_form_def)
qed





lemma pass1_rest_let_mut:
  assumes "prefix ''let &mut'' line"
  shows "pass1_rest i lw line g =
     (if bm (bstack g ! sp g) \<or> bi (bstack g ! sp g) then Inl (DieSrc i BorrowError)
      else Inr (g\<lparr>bstack := (bstack g)[sp g := (bstack g ! sp g)\<lparr>bm := True\<rparr>]\<rparr>))"
proof -
  from assms obtain r where "line = ''let &mut'' @ r" by (auto elim: prefixE)
  then show ?thesis by (simp add: pass1_rest_def)
qed

lemma pass1_rest_let_imm:
  assumes "prefix ''let &'' line" and "\<not> prefix ''let &mut'' line"
  shows "pass1_rest i lw line g =
     (if bm (bstack g ! sp g) then Inl (DieSrc i BorrowError)
      else Inr (g\<lparr>bstack := (bstack g)[sp g := (bstack g ! sp g)\<lparr>bi := True\<rparr>]\<rparr>))"
proof -
  from assms(1) obtain r where "line = ''let &'' @ r" by (auto elim: prefixE)
  then show ?thesis using assms(2) by (simp add: pass1_rest_def)
qed

lemma push1_fields [simp]:
  "bstack (push1 i a g) = bstack g" "sp (push1 i a g) = sp g" "src (push1 i a g) = src g"
  "asm1 (push1 i a g) = asm1 g @ [a]" "asmSrcLine (push1 i a g) = asmSrcLine g @ [i]"
  by (simp_all add: push1_def)

lemma push2_fields [simp]:
  "bstack (push2 i a b g) = bstack g" "sp (push2 i a b g) = sp g" "src (push2 i a b g) = src g"
  "asm1 (push2 i a b g) = asm1 g @ [a, b]" "asmSrcLine (push2 i a b g) = asmSrcLine g @ [i, i]"
  by (simp_all add: push2_def)

lemma if_eqE:
  assumes "(if c then a else b) = r"
    and "c \<Longrightarrow> a = r \<Longrightarrow> P" and "\<not> c \<Longrightarrow> b = r \<Longrightarrow> P"
  shows P
  using assms by (cases c) auto

text \<open>What a line can do to the state: the shapes of a step that succeeds.\<close>

lemma pass1_rest_cases:
  assumes "pass1_rest i lw line g = Inr g'"
  shows "(\<exists>a. g' = push1 i a g) \<or> (\<exists>a b. g' = push2 i a b g)
    \<or> (\<exists>f. g' = g\<lparr>bstack := (bstack g)[sp g := f]\<rparr>)
    \<or> (sp g + 1 < MAXS \<and> g' = g\<lparr>sp := sp g + 1, bstack := (bstack g)[sp g + 1 := no_borrow]\<rparr>)
    \<or> (sp g \<noteq> 0 \<and> g' = g\<lparr>sp := sp g - 1\<rparr>)"
  using assms unfolding pass1_rest_def Let_def one_arg_def
  apply (elim if_eqE)
  apply (simp_all split: option.splits prod.splits)
  apply (blast | (elim if_eqE, simp_all, blast?))+
  done

subsection \<open>Immediates\<close>

lemmas scan_defs = strtoul_def strtol_def scan_int_def scan_sign_def isspace_def
  is_digit_def digit_val_def digits_val_def hex_prefix_def

text \<open>
  C2. The claim: a numeric operand parses only when it is a fully consumed hexadecimal or
  decimal literal; trailing text after a decimal number is a fatal error. The hexadecimal
  branch of \<open>parseImm\<close> tests \<open>*end\<close>, the decimal branch only tests \<open>end == s\<close>: the
  operand \<open>12abc\<close> is accepted with the value 12, while \<open>0x12zz\<close> is refused.
\<close>

theorem parseImm_decimal_trailing_text_accepted:
  "parseImm ''12abc'' = Inr 12 \<and> parseImm ''0x12zz'' = Inl (MalformedHex ''0x12zz'')"
  by (simp add: parseImm_def scan_defs)

subsection \<open>Scopes and borrows\<close>

lemma pass1_line_cases:
  assumes "pass1_line i g = Inr g'"
  shows "(\<exists>lw line. pass1_rest i lw line g = Inr g') \<or> (\<exists>a b. g' = push2 i a b g)"
  using assms unfolding pass1_line_def Let_def one_arg_def two_args_def
  apply (elim if_eqE)
  apply (simp_all split: option.splits prod.splits)
  apply blast+
  done

lemma pass1_line_shapes:
  assumes "pass1_line i g = Inr g'"
  shows "(\<exists>a. g' = push1 i a g) \<or> (\<exists>a b. g' = push2 i a b g)
    \<or> (\<exists>f. g' = g\<lparr>bstack := (bstack g)[sp g := f]\<rparr>)
    \<or> (sp g + 1 < MAXS \<and> g' = g\<lparr>sp := sp g + 1, bstack := (bstack g)[sp g + 1 := no_borrow]\<rparr>)
    \<or> (sp g \<noteq> 0 \<and> g' = g\<lparr>sp := sp g - 1\<rparr>)"
  using pass1_line_cases [OF assms] pass1_rest_cases by blast



lemma pass1_line_src:
  assumes "pass1_line i g = Inr g'"
  shows "src g' = src g"
  using pass1_line_shapes [OF assms] by auto

text \<open>The stack keeps its \<open>MAXS\<close> frames and \<open>sp\<close> stays inside it.\<close>

definition frames_ok :: "globals \<Rightarrow> bool" where
  "frames_ok g = (length (bstack g) = MAXS \<and> sp g < MAXS)"

lemma pass1_line_frames_ok:
  assumes "pass1_line i g = Inr g'" and "frames_ok g"
  shows "frames_ok g'"
  using pass1_line_shapes [OF assms(1)] assms(2) by (auto simp: frames_ok_def)

lemma frames_ok_init: "frames_ok (init_globals ls)"
  by (simp add: frames_ok_def init_globals_def MAXS_def)

lemma pass1_loop_frames_ok:
  assumes "for_lines pass1_line js g = Inr g'" and "frames_ok g"
  shows "frames_ok g'"
  using assms(1,2) by (rule for_lines_inv) (rule pass1_line_frames_ok)

lemma pass1_loop_src:
  assumes "for_lines pass1_line js g = Inr g'"
  shows "src g' = src g"
proof -
  have "src g' = src g"
    using assms by (rule for_lines_inv [where P = "\<lambda>t. src t = src g"])
      (simp_all add: pass1_line_src)
  then show ?thesis .
qed



lemma pass1_end:
  assumes "for_lines pass1_line [0..<length (src g0)]
             (g0\<lparr>sp := 0, bstack := (bstack g0)[0 := no_borrow]\<rparr>) = Inr g1"
  shows "pass1 g0 =
     (if sp g1 \<noteq> 0 then Inl (DieSrc (length (src g0) - 1) UnclosedScopes) else Inr g1)"
  using assms pass1_loop_src [OF assms] by (simp add: pass1_def)




lemmas state_defs = init_globals_def trim_def is_blank_def is_trail_def MAXS_def MAXL_def
  LNSZ_def MAXLB_def no_borrow_def

lemma init_reset:
  "(init_globals ls)\<lparr>sp := 0, bstack := (bstack (init_globals ls))[0 := no_borrow]\<rparr> = init_globals ls"
  by (simp add: init_globals_def MAXS_def list_eq_iff_nth_eq nth_list_update)


lemma pass1_let_mut:
  assumes "prefix ''let &mut'' (trim (src g ! i))"
  shows "pass1_line i g =
     (if bm (bstack g ! sp g) \<or> bi (bstack g ! sp g) then Inl (DieSrc i BorrowError)
      else Inr (g\<lparr>bstack := (bstack g)[sp g := (bstack g ! sp g)\<lparr>bm := True\<rparr>]\<rparr>))"
proof -
  from assms have "prefix ''let &'' (trim (src g ! i))"
    by (auto elim!: prefixE)
  then show ?thesis
    by (simp add: pass1_line_let pass1_rest_let_mut [OF assms])
qed

lemma pass1_let_imm:
  assumes "prefix ''let &'' (trim (src g ! i))" and "\<not> prefix ''let &mut'' (trim (src g ! i))"
  shows "pass1_line i g =
     (if bm (bstack g ! sp g) then Inl (DieSrc i BorrowError)
      else Inr (g\<lparr>bstack := (bstack g)[sp g := (bstack g ! sp g)\<lparr>bi := True\<rparr>]\<rparr>))"
  by (simp add: pass1_line_let [OF assms(1)] pass1_rest_let_imm [OF assms])

text \<open>
  C5. In any state, a line that starts with \<open>let &mut\<close> is the borrow error when the top
  frame has a borrow of either kind, and otherwise sets \<open>bm\<close> of the top frame; a line
  that starts with \<open>let &\<close> but not with \<open>let &mut\<close> is the borrow error when the top
  frame has \<open>bm\<close>, and otherwise sets \<open>bi\<close>. Neither changes \<open>asm1\<close>, \<open>asmSrcLine\<close> or
  \<open>sp\<close>.
\<close>

theorem borrow_discipline:
  "(prefix ''let &mut'' (trim (src g ! i)) \<longrightarrow>
      pass1_line i g =
        (if bm (bstack g ! sp g) \<or> bi (bstack g ! sp g) then Inl (DieSrc i BorrowError)
         else Inr (g\<lparr>bstack := (bstack g)[sp g := (bstack g ! sp g)\<lparr>bm := True\<rparr>]\<rparr>)))
   \<and> (prefix ''let &'' (trim (src g ! i)) \<and> \<not> prefix ''let &mut'' (trim (src g ! i)) \<longrightarrow>
      pass1_line i g =
        (if bm (bstack g ! sp g) then Inl (DieSrc i BorrowError)
         else Inr (g\<lparr>bstack := (bstack g)[sp g := (bstack g ! sp g)\<lparr>bi := True\<rparr>]\<rparr>)))
   \<and> (prefix ''let &'' (trim (src g ! i)) \<and> pass1_line i g = Inr g' \<longrightarrow>
      asm1 g' = asm1 g \<and> asmSrcLine g' = asmSrcLine g \<and> sp g' = sp g)
   \<and> (prefix ''let &'' (trim (src g ! i)) \<and> frames_ok g \<and> pass1_line i g = Inr g' \<longrightarrow>
      frames_ok g' \<and>
      (if prefix ''let &mut'' (trim (src g ! i)) then bm (bstack g' ! sp g')
       else bi (bstack g' ! sp g')))"
proof -
  have mut: "prefix ''let &mut'' (trim (src g ! i)) \<Longrightarrow> prefix ''let &'' (trim (src g ! i))"
    by (auto elim!: prefixE)
  have quiet: "asm1 g' = asm1 g \<and> asmSrcLine g' = asmSrcLine g \<and> sp g' = sp g"
    if "prefix ''let &'' (trim (src g ! i))" and "pass1_line i g = Inr g'"
  proof (cases "prefix ''let &mut'' (trim (src g ! i))")
    case True
    with that(2) show ?thesis by (auto simp: pass1_let_mut split: if_splits)
  next
    case False
    with that show ?thesis by (auto simp: pass1_let_imm split: if_splits)
  qed
  have flag: "frames_ok g' \<and>
      (if prefix ''let &mut'' (trim (src g ! i)) then bm (bstack g' ! sp g')
       else bi (bstack g' ! sp g'))"
    if "prefix ''let &'' (trim (src g ! i))" and "frames_ok g" and "pass1_line i g = Inr g'"
  proof (cases "prefix ''let &mut'' (trim (src g ! i))")
    case True
    with that(2,3) show ?thesis
      by (auto simp: pass1_let_mut frames_ok_def split: if_splits)
  next
    case False
    with that show ?thesis
      by (auto simp: pass1_let_imm frames_ok_def split: if_splits)
  qed
  show ?thesis
    using pass1_let_mut pass1_let_imm quiet flag by blast
qed

theorem borrow_discipline_witness:
  "pass1_line 0 (init_globals [''let &mut x'']) =
     Inr ((init_globals [''let &mut x''])\<lparr>bstack :=
        (bstack (init_globals [''let &mut x'']))[0 := \<lparr>bm = True, bi = False\<rparr>]\<rparr>)
   \<and> pass1_line 0 (init_globals [''let & y'']) =
     Inr ((init_globals [''let & y''])\<lparr>bstack :=
        (bstack (init_globals [''let & y'']))[0 := \<lparr>bm = False, bi = True\<rparr>]\<rparr>)
   \<and> pass1_line 0 ((init_globals [''let & y''])\<lparr>bstack :=
        (bstack (init_globals [''let & y'']))[0 := \<lparr>bm = True, bi = False\<rparr>]\<rparr>) =
     Inl (DieSrc 0 BorrowError)
   \<and> pass1_line 0 ((init_globals [''let &mut x''])\<lparr>bstack :=
        (bstack (init_globals [''let &mut x'']))[0 := \<lparr>bm = False, bi = True\<rparr>]\<rparr>) =
     Inl (DieSrc 0 BorrowError)"
proof -
  let ?m = "init_globals [''let &mut x'']"
  let ?i = "init_globals [''let & y'']"
  let ?im = "?i\<lparr>bstack := (bstack ?i)[0 := \<lparr>bm = True, bi = False\<rparr>]\<rparr>"
  let ?mi = "?m\<lparr>bstack := (bstack ?m)[0 := \<lparr>bm = False, bi = True\<rparr>]\<rparr>"
  have p: "prefix ''let &mut'' (trim (src ?m ! 0))" "prefix ''let &'' (trim (src ?i ! 0))"
    "\<not> prefix ''let &mut'' (trim (src ?i ! 0))"
    by (simp_all add: state_defs)
  have "pass1_line 0 ?m = Inr (?m\<lparr>bstack := (bstack ?m)[0 := \<lparr>bm = True, bi = False\<rparr>]\<rparr>)"
    using borrow_discipline [of ?m 0 ?m] p by (simp add: state_defs)
  moreover have "pass1_line 0 ?i = Inr (?i\<lparr>bstack := (bstack ?i)[0 := \<lparr>bm = False, bi = True\<rparr>]\<rparr>)"
    using borrow_discipline [of ?i 0 ?i] p by (simp add: state_defs)
  moreover have "pass1_line 0 ?im = Inl (DieSrc 0 BorrowError)"
    using borrow_discipline [of ?im 0 ?im] p by (simp add: state_defs)
  moreover have "pass1_line 0 ?mi = Inl (DieSrc 0 BorrowError)"
    using borrow_discipline [of ?mi 0 ?mi] p by (simp add: state_defs)
  ultimately show ?thesis by blast
qed

subsection \<open>Evaluation on concrete programs\<close>

lemmas lex_defs = is_delim_def non_delim_def strtok_r_def call_form_def payload_def
  split_at_def snprintf_def tolower_def

lemmas pass_defs = pass1_def pass1_line_def pass1_rest_def one_arg_def two_args_def
  push1_def push2_def asm_passA_def clone_line_def passA_line_def line_sz_def
  recordLabel_def find_lbl_def dieAsm_def asm_passB_def passB_line_def next_imm_def
  fill_step_def e8_def e16_def e32_def fputc_def fseek_def Let_def

lemma replicate_update_same [simp]: "(replicate n x)[i := x] = replicate n x"
  by (induction n arbitrary: i) (auto split: nat.splits)

subsection \<open>The extension forms and the capacity of \<open>asm1\<close>\<close>

lemma fold_mode_step:
  assumes "src g ! i = ''fold_mode(1)''"
  shows "pass1_line i g = Inr (push2 i ''INT 0x01'' ''DB 1'' g)"
  by (simp add: pass1_line_def assms lex_defs state_defs one_arg_def Let_def)

lemma fold_mode_loop:
  assumes "\<And>i. i \<in> set js \<Longrightarrow> src g ! i = ''fold_mode(1)''"
  shows "\<exists>g'. for_lines pass1_line js g = Inr g' \<and> sp g' = sp g \<and> src g' = src g
    \<and> asm1 g' = asm1 g @ concat (replicate (length js) [''INT 0x01'', ''DB 1''])"
  using assms
proof (induction js arbitrary: g)
  case Nil
  then show ?case by simp
next
  case (Cons j js)
  let ?t = "push2 j ''INT 0x01'' ''DB 1'' g"
  have step: "pass1_line j g = Inr ?t"
    using Cons.prems by (simp add: fold_mode_step)
  have "\<And>i. i \<in> set js \<Longrightarrow> src ?t ! i = ''fold_mode(1)''"
    using Cons.prems by simp
  from Cons.IH [OF this] step show ?case by auto
qed

text \<open>
  C9. The claim: every rule that appends to \<open>asm1\<close> tests the cap of \<open>MAXL = 512\<close> lines
  first, so the lowered sequence never has more. The ten extension forms append their two
  lines with no test: 257 source lines \<open>fold_mode(1)\<close> (the loader takes up to 512) are
  lowered with no diagnostic to 514 lines, the last two past the end of the array.
\<close>

theorem extension_forms_overrun_asm1:
  "\<exists>g. pass1 (init_globals (replicate 257 ''fold_mode(1)'')) = Inr g
     \<and> length (asm1 g) = 514 \<and> MAXL = 512
     \<and> asm1 g = concat (replicate 257 [''INT 0x01'', ''DB 1''])"
proof -
  let ?g0 = "init_globals (replicate 257 ''fold_mode(1)'')"
  have "\<And>i. i \<in> set [0..<257] \<Longrightarrow> src ?g0 ! i = ''fold_mode(1)''"
    by (simp add: init_globals_def)
  from fold_mode_loop [OF this] obtain g'
    where loop: "for_lines pass1_line [0..<257] ?g0 = Inr g'" and "sp g' = sp ?g0"
      and "asm1 g' = asm1 ?g0 @ concat (replicate (length [0..<257]) [''INT 0x01'', ''DB 1''])"
    by blast
  then have "sp g' = 0" "asm1 g' = concat (replicate 257 [''INT 0x01'', ''DB 1''])"
    by (simp_all add: init_globals_def)
  moreover have "pass1 ?g0 = (if sp g' \<noteq> 0 then Inl (DieSrc (length (src ?g0) - 1) UnclosedScopes) else Inr g')"
    using loop by (intro pass1_end) (simp add: init_reset, simp add: init_globals_def)
  ultimately show ?thesis
    by (simp add: MAXL_def length_concat sum_list_replicate)
qed

subsection \<open>Provenance\<close>

text \<open>What pass 1 leaves: no assembler line yet, and a valid source index for each lowered line.\<close>

definition lowered_ok :: "nat \<Rightarrow> globals \<Rightarrow> bool" where
  "lowered_ok n g = (lines2 g = [] \<and> lines2AsmIdx g = [] \<and>
     length (asmSrcLine g) = length (asm1 g) \<and> list_all (\<lambda>x. x < n) (asmSrcLine g))"

lemma pass1_line_lowered_ok:
  assumes "pass1_line i g = Inr g'" and "lowered_ok n g" and "i < n"
  shows "lowered_ok n g'"
  using pass1_line_shapes [OF assms(1)] assms(2,3)
  by (auto simp: lowered_ok_def push1_def push2_def)

lemma pass1_lowered_ok:
  assumes "pass1 (init_globals ls) = Inr g"
  shows "lowered_ok (length ls) g"
proof -
  let ?g0 = "init_globals ls"
  from assms have loop: "for_lines pass1_line [0..<length ls] ?g0 = Inr g"
    by (auto simp: pass1_def init_reset split: sum.splits if_splits)
      (simp_all add: init_globals_def)
  have "lowered_ok (length ls) ?g0"
    by (simp add: lowered_ok_def init_globals_def)
  with loop show ?thesis
    by (rule for_lines_inv) (auto intro: pass1_line_lowered_ok)
qed

lemma clone_loop:
  assumes "for_lines clone_line js g = Inr g'"
  shows "lines2 g' = lines2 g @ map ((!) (asm1 g)) js \<and> lines2AsmIdx g' = lines2AsmIdx g @ js
    \<and> asm1 g' = asm1 g \<and> asmSrcLine g' = asmSrcLine g \<and> lbl2 g' = lbl2 g \<and> src g' = src g
    \<and> out g' = out g"
  using assms
proof (induction js arbitrary: g)
  case Nil
  then show ?case by simp
next
  case (Cons j js)
  from Cons.prems obtain t where t: "clone_line j g = Inr t" and rest: "for_lines clone_line js t = Inr g'"
    by (auto split: sum.splits)
  from t have "t = g\<lparr>lines2 := lines2 g @ [asm1 g ! j], lines2AsmIdx := lines2AsmIdx g @ [j]\<rparr>"
    by (auto simp: clone_line_def split: if_splits)
  with Cons.IH [OF rest] show ?case by simp
qed

text \<open>
  One round of the second loop of pass A cuts line \<open>i\<close> of \<open>lines2\<close> in place and may add
  a label; it writes nothing else.
\<close>

definition cuts_line :: "nat \<Rightarrow> globals \<Rightarrow> globals \<Rightarrow> bool" where
  "cuts_line i g g' = (lines2 g' = (lines2 g)[i := trim_buf (lines2 g ! i)] \<and>
     lines2AsmIdx g' = lines2AsmIdx g \<and> asm1 g' = asm1 g \<and> asmSrcLine g' = asmSrcLine g \<and>
     src g' = src g \<and> out g' = out g)"

lemma recordLabel_fields:
  assumes "recordLabel nm pc i g = Inr g'"
  shows "lines2 g' = lines2 g \<and> lines2AsmIdx g' = lines2AsmIdx g \<and> asm1 g' = asm1 g \<and>
    asmSrcLine g' = asmSrcLine g \<and> src g' = src g \<and> out g' = out g"
  using assms by (auto simp: recordLabel_def split: if_splits)

lemma passA_line_fields:
  assumes "passA_line i (pc, g) = Inr (pc', g')"
  shows "cuts_line i g g'"
  using assms
  by (auto simp: passA_line_def cuts_line_def Let_def split: option.splits if_splits sum.splits
      dest!: recordLabel_fields)

lemma passA_loop_fields:
  assumes "for_lines passA_line js (pc, g) = Inr (pc', g')"
  shows "lines2 g' = fold (\<lambda>i ls. ls[i := trim_buf (ls ! i)]) js (lines2 g) \<and>
     lines2AsmIdx g' = lines2AsmIdx g \<and> asm1 g' = asm1 g \<and> asmSrcLine g' = asmSrcLine g \<and>
     src g' = src g \<and> out g' = out g"
  using assms
proof (induction js arbitrary: pc g)
  case Nil
  then show ?case by simp
next
  case (Cons j js)
  from Cons.prems obtain pc1 g1 where one: "passA_line j (pc, g) = Inr (pc1, g1)"
    and rest: "for_lines passA_line js (pc1, g1) = Inr (pc', g')"
    by (auto split: sum.splits)
  from passA_line_fields [OF one] Cons.IH [OF rest] show ?case
    by (simp add: cuts_line_def)
qed

lemma fold_update_upt:
  assumes "n \<le> length ls"
  shows "fold (\<lambda>i ls. ls[i := f (ls ! i)]) [0..<n] ls = map f (take n ls) @ drop n ls"
  using assms
proof (induction n)
  case 0
  then show ?case by simp
next
  case (Suc n)
  then have n: "n < length ls" by simp
  let ?xs = "map f (take n ls)"
  have len: "length ?xs = n" using n by simp
  have "fold (\<lambda>i ls. ls[i := f (ls ! i)]) [0..<Suc n] ls =
      (?xs @ drop n ls)[n := f ((?xs @ drop n ls) ! n)]"
    using Suc by simp
  also have "(?xs @ drop n ls) ! n = ls ! n"
    using n by (simp add: nth_append)
  also have "(?xs @ drop n ls)[n := f (ls ! n)] = ?xs @ (drop n ls)[0 := f (ls ! n)]"
    using len by (simp add: list_update_append)
  also have "drop n ls = ls ! n # drop (Suc n) ls"
    using n by (simp add: Cons_nth_drop_Suc)
  also have "?xs @ (ls ! n # drop (Suc n) ls)[0 := f (ls ! n)] =
      map f (take (Suc n) ls) @ drop (Suc n) ls"
    using n by (simp add: take_Suc_conv_app_nth)
  finally show ?case .
qed

lemma trim_buf_clean:
  assumes "l = [] \<or> \<not> is_trail (last l)"
  shows "trim_buf l = l"
proof (cases "dropWhile is_blank l")
  case Nil
  then have "\<forall>c\<in>set l. is_blank c" by (simp add: dropWhile_eq_Nil_conv)
  then have "l \<noteq> [] \<Longrightarrow> is_trail (last l)"
    by (auto simp: is_blank_def is_trail_def dest!: last_in_set)
  with assms have "l = []" by blast
  then show ?thesis by (simp add: trim_buf_def trim_def)
next
  case (Cons c cs)
  then have ne: "dropWhile is_blank l \<noteq> []" by simp
  have "l = takeWhile is_blank l @ dropWhile is_blank l" by simp
  then have "last l = last (dropWhile is_blank l)"
    using ne by (metis last_appendR)
  moreover from Cons have "l \<noteq> []" by auto
  ultimately have "\<not> is_trail (last (dropWhile is_blank l))" using assms by simp
  then have "dropWhile is_trail (rev (dropWhile is_blank l)) = rev (dropWhile is_blank l)"
    using ne by (cases "rev (dropWhile is_blank l)") (auto simp: last_rev hd_rev)
  then show ?thesis by (simp add: trim_buf_def trim_def)
qed


text \<open>
  C10, as the claim states it: after pass A the text of every assembler line equals the text
  of its lowered line. The source \<open>org(0x100 )\<close> is lowered to \<open>ORG 0x100\<close> followed by
  a blank; the second loop of pass A cuts the blank in \<open>lines2\<close> (\<open>trim\<close> works in place)
  and leaves it in \<open>asm1\<close>.
\<close>

theorem clone_text_differs:
  "pass1 (init_globals [''org(0x100 )'']) =
     Inr (init_globals [''org(0x100 )'']\<lparr>asm1 := [''ORG 0x100 ''], asmSrcLine := [0]\<rparr>)
   \<and> asm_passA (init_globals [''org(0x100 )'']\<lparr>asm1 := [''ORG 0x100 ''], asmSrcLine := [0]\<rparr>) =
     Inr (0, init_globals [''org(0x100 )'']\<lparr>asm1 := [''ORG 0x100 ''], asmSrcLine := [0],
       lines2 := [''ORG 0x100''], lines2AsmIdx := [0]\<rparr>)
   \<and> ''ORG 0x100'' \<noteq> ''ORG 0x100 ''"
  by (simp add: pass_defs lex_defs state_defs trim_buf_def)

text \<open>
  C10, amended. After pass 1 and a pass A that returns, \<open>lines2\<close> has the length of
  \<open>asm1\<close>; its line \<open>i\<close> is the lowered line \<open>i\<close> with the white space at its end cut
  (\<open>trim_buf\<close>), so the two texts are equal when the lowered line does not end in a blank,
  tab, CR or LF; \<open>lines2AsmIdx[i] = i\<close>; and \<open>dieAsm\<close> at any assembler line cites
  \<open>asmSrcLine[i]\<close>, an index into the source lines.
\<close>

theorem clone_up_to_trim:
  assumes "pass1 (init_globals ls) = Inr g1" and "asm_passA g1 = Inr (pc, g2)"
  shows "length (lines2 g2) = length (asm1 g1) \<and> lines2 g2 = map trim_buf (asm1 g1)
    \<and> lines2AsmIdx g2 = [0..<length (asm1 g1)] \<and> asm1 g2 = asm1 g1
    \<and> (\<forall>i. i < length (asm1 g1) \<longrightarrow>
          lines2 g2 ! i = trim_buf (asm1 g1 ! i)
          \<and> (asm1 g1 ! i = [] \<or> \<not> is_trail (last (asm1 g1 ! i)) \<longrightarrow>
               lines2 g2 ! i = asm1 g1 ! i)
          \<and> lines2AsmIdx g2 ! i = i
          \<and> asmSrcLine g2 ! (lines2AsmIdx g2 ! i) < length ls
          \<and> dieAsm g2 i m = DieAsm (asmSrcLine g1 ! i) m)"
proof -
  from assms(1) have ok: "lowered_ok (length ls) g1" by (rule pass1_lowered_ok)
  from assms(2) obtain g where c: "for_lines clone_line [0..<length (asm1 g1)] g1 = Inr g"
    and l: "for_lines passA_line [0..<length (lines2 g)] (0, g) = Inr (pc, g2)"
    by (auto simp: asm_passA_def split: sum.splits)
  from clone_loop [OF c] ok have g: "lines2 g = asm1 g1" "lines2AsmIdx g = [0..<length (asm1 g1)]"
    "asmSrcLine g = asmSrcLine g1" "asm1 g = asm1 g1"
    by (simp_all add: lowered_ok_def map_nth)
  from passA_loop_fields [OF l] g have g2: "lines2 g2 = map trim_buf (asm1 g1)"
    "lines2AsmIdx g2 = [0..<length (asm1 g1)]" "asmSrcLine g2 = asmSrcLine g1"
    "asm1 g2 = asm1 g1"
    by (simp_all add: fold_update_upt)
  have "asmSrcLine g1 ! i < length ls" if "i < length (asm1 g1)" for i
    using ok that by (simp add: lowered_ok_def list_all_length)
  with g2 ok show ?thesis
    by (simp add: dieAsm_def lowered_ok_def trim_buf_clean)
qed

theorem clone_up_to_trim_witness:
  "pass1 (init_globals [''org(0x100 )'', ''L:'']) =
     Inr (init_globals [''org(0x100 )'', ''L:'']\<lparr>asm1 := [''ORG 0x100 '', ''L:''],
       asmSrcLine := [0, 1]\<rparr>)
   \<and> asm_passA (init_globals [''org(0x100 )'', ''L:'']\<lparr>asm1 := [''ORG 0x100 '', ''L:''],
       asmSrcLine := [0, 1]\<rparr>) =
     Inr (0, init_globals [''org(0x100 )'', ''L:'']\<lparr>asm1 := [''ORG 0x100 '', ''L:''],
       asmSrcLine := [0, 1], lines2 := [''ORG 0x100'', ''L:''], lines2AsmIdx := [0, 1],
       lbl2 := [\<lparr>name = ''L'', addr = 0\<rparr>]\<rparr>)
   \<and> [''ORG 0x100'', ''L:''] = map trim_buf [''ORG 0x100 '', ''L:'']
   \<and> dieAsm (init_globals [''org(0x100 )'', ''L:'']\<lparr>asm1 := [''ORG 0x100 '', ''L:''],
       asmSrcLine := [0, 1], lines2 := [''ORG 0x100'', ''L:''], lines2AsmIdx := [0, 1],
       lbl2 := [\<lparr>name = ''L'', addr = 0\<rparr>]\<rparr>) 1 Lines2Overflow = DieAsm 1 Lines2Overflow"
proof -
  let ?g0 = "init_globals [''org(0x100 )'', ''L:'']"
  let ?g1 = "?g0\<lparr>asm1 := [''ORG 0x100 '', ''L:''], asmSrcLine := [0, 1]\<rparr>"
  let ?g2 = "?g0\<lparr>asm1 := [''ORG 0x100 '', ''L:''], asmSrcLine := [0, 1],
       lines2 := [''ORG 0x100'', ''L:''], lines2AsmIdx := [0, 1],
       lbl2 := [\<lparr>name = ''L'', addr = 0\<rparr>]\<rparr>"
  have p1: "pass1 ?g0 = Inr ?g1"
    by (simp add: pass_defs lex_defs state_defs)
  have pA: "asm_passA ?g1 = Inr (0, ?g2)"
    by (simp add: pass_defs lex_defs state_defs trim_buf_def)
  note T = clone_up_to_trim [OF p1 pA, of Lines2Overflow]
  have len: "1 < length (asm1 ?g1)" by (simp add: init_globals_def)
  from T have A: "lines2 ?g2 = map trim_buf (asm1 ?g1)" by blast
  from T len have B: "dieAsm ?g2 1 Lines2Overflow = DieAsm (asmSrcLine ?g1 ! 1) Lines2Overflow"
    by blast
  from A have "[''ORG 0x100'', ''L:''] = map trim_buf [''ORG 0x100 '', ''L:'']"
    by (simp add: init_globals_def)
  moreover from B have "dieAsm ?g2 1 Lines2Overflow = DieAsm 1 Lines2Overflow"
    by (simp add: init_globals_def)
  ultimately have "[''ORG 0x100'', ''L:''] = map trim_buf [''ORG 0x100 '', ''L:'']"
    and "dieAsm ?g2 1 Lines2Overflow = DieAsm 1 Lines2Overflow"
    by blast+
  with p1 pA show ?thesis by blast
qed

subsection \<open>Bytes in the output file\<close>


definition e32_bytes :: "32 word \<Rightarrow> 8 word list" where
  "e32_bytes w =
     [ucast ((ucast (w AND 0xFFFF) :: 16 word) AND 0xFF),
      ucast (drop_bit 8 (ucast (w AND 0xFFFF) :: 16 word)),
      ucast ((ucast (drop_bit 16 w) :: 16 word) AND 0xFF),
      ucast (drop_bit 8 (ucast (drop_bit 16 w) :: 16 word))]"

lemma e32_fold: "e32 w g = fold e8 (e32_bytes w) g"
  by (simp add: e32_def e16_def e32_bytes_def)





text \<open>Bytes written one after the other are read back at the positions they were written to.\<close>

lemma fpos_fputc [simp]: "fpos (fputc b f) = fpos f + 1"
  by (simp add: fputc_def Let_def)





lemma fpos_fputs [simp]: "fpos (fold fputc bs f) = fpos f + length bs"
  by (induction bs arbitrary: f) simp_all


lemma fold_e8_fields [simp]:
  "lbl2 (fold e8 bs g) = lbl2 g" "lines2 (fold e8 bs g) = lines2 g"
  "lines2AsmIdx (fold e8 bs g) = lines2AsmIdx g" "asmSrcLine (fold e8 bs g) = asmSrcLine g"
  by (induction bs arbitrary: g) (simp_all add: e8_def)

lemma dieAsm_e8 [simp]: "dieAsm (e8 b g) i m = dieAsm g i m"
  by (simp add: dieAsm_def e8_def)

lemma lbl2_e8 [simp]: "lbl2 (e8 b g) = lbl2 g"
  by (simp add: e8_def)

lemma find_lbl_e8 [simp]: "find_lbl nmo i (e8 b g) = find_lbl nmo i g"
  by (simp add: find_lbl_def cong: option.case_cong if_cong)

subsection \<open>Labels and relative jumps\<close>







subsection \<open>Whole programs\<close>

text \<open>The text of a source file from its lines, each ended by a newline.\<close>

definition file_of :: "string list \<Rightarrow> string" where
  "file_of ls = concat (map (\<lambda>l. l @ [CHR 0x0A]) ls)"

lemmas read_defs = read_src_def read_lines.simps fgets_def c_str_def file_of_def translate_def




subsection \<open>The sizer against the emitter\<close>

lemma fill_loop:
  "(fill_step v ^^ n) (pc, g) = (pc + of_nat n, (e8 v ^^ n) g)"
proof (induction n arbitrary: pc g)
  case 0
  then show ?case by simp
next
  case (Suc n)
  have one: "fill_step v (pc, g) = (pc + 1, e8 v g)"
    by (simp add: fill_step_def)
  have "(fill_step v ^^ Suc n) (pc, g) = (fill_step v ^^ n) (fill_step v (pc, g))"
    by (simp only: funpow_Suc_right o_apply)
  also have "\<dots> = (pc + 1 + of_nat n, (e8 v ^^ n) (e8 v g))"
    unfolding one by (rule Suc.IH)
  also have "\<dots> = (pc + of_nat (Suc n), (e8 v ^^ Suc n) g)"
    by (simp only: funpow_Suc_right o_apply of_nat_Suc) (simp add: add.assoc add.commute)
  finally show ?case .
qed

text \<open>Writing at the end of the file appends.\<close>

lemma fputs_append:
  assumes "fpos f = length (fdata f)"
  shows "fold fputc bs f = \<lparr>fpos = fpos f + length bs, fdata = fdata f @ bs\<rparr>"
  using assms
proof (induction bs arbitrary: f)
  case Nil
  then show ?case by simp
next
  case (Cons b bs)
  have one: "fputc b f = \<lparr>fpos = fpos f + 1, fdata = fdata f @ [b]\<rparr>"
    using Cons.prems by (simp add: fputc_def Let_def)
  have "fpos (fputc b f) = length (fdata (fputc b f))"
    using Cons.prems by (simp add: one)
  from Cons.IH [OF this] show ?case by (simp add: one)
qed

lemma fold_e8_out: "fold e8 bs g = g\<lparr>out := fold fputc bs (out g)\<rparr>"
  by (induction bs arbitrary: g) (simp_all add: e8_def)

lemma fill_bytes:
  assumes "fpos (out g) = length (fdata (out g))"
  shows "(e8 v ^^ n) g =
     g\<lparr>out := \<lparr>fpos = fpos (out g) + n, fdata = fdata (out g) @ replicate n v\<rparr>\<rparr>"
proof -
  have "(e8 v ^^ n) g = fold e8 (replicate n v) g" by simp
  also have "\<dots> = g\<lparr>out := fold fputc (replicate n v) (out g)\<rparr>"
    by (rule fold_e8_out)
  also have "fold fputc (replicate n v) (out g) =
      \<lparr>fpos = fpos (out g) + n, fdata = fdata (out g) @ replicate n v\<rparr>"
    using fputs_append [OF assms, of "replicate n v"] by simp
  finally show ?thesis .
qed

lemma e8_append:
  assumes "fpos (out g) = length (fdata (out g))"
  shows "e8 b g = g\<lparr>out := \<lparr>fpos = fpos (out g) + 1, fdata = fdata (out g) @ [b]\<rparr>\<rparr>"
  using fputs_append [OF assms, of "[b]"] by (simp add: e8_def)

lemma e32_append:
  assumes "fpos (out g) = length (fdata (out g))"
  shows "e32 w g = g\<lparr>out := \<lparr>fpos = fpos (out g) + 4, fdata = fdata (out g) @ e32_bytes w\<rparr>\<rparr>"
  using fputs_append [OF assms, of "e32_bytes w"]
  by (simp add: e32_fold fold_e8_out) (simp add: e32_bytes_def)

lemmas imm_defs = parseImm_def atoi_def scan_defs

lemmas lower_defs = pass1_def pass1_line_def pass1_rest_def one_arg_def two_args_def
  push1_def push2_def Let_def

lemmas sizer_defs = asm_passA_def clone_line_def passA_line_def line_sz_def recordLabel_def
  dieAsm_def trim_buf_def Let_def

lemmas emitter_defs = asm_passB_def passB_line_def next_imm_def find_lbl_def dieAsm_def
  fseek_def Let_def

text \<open>
  C1. The claim: for every accepted file the sizer and the emitter have the same program
  counter at each label, and give every line the same size, \<open>FILL\<close> lines included. The
  sizer reads the count of \<open>FILL\<close> with \<open>atoi\<close>, the emitter with \<open>parseImm\<close>, and only the
  second knows \<open>0x\<close>: for the lines \<open>fill(0x10,0)\<close>, \<open>L:\<close>, \<open>jmp(L)\<close> the sizer gives the
  \<open>FILL\<close> line the size 0 and records \<open>L\<close> at 0; the emitter writes 16 bytes, reaches the
  line \<open>L:\<close> at 16 and writes for the jump the displacement \<open>0 - 21\<close>, which leads to
  address 0 and not to \<open>L\<close>.
\<close>

theorem fill_hex_count_breaks_label_stability:
  "pass1 (init_globals [''fill(0x10,0)'', ''L:'', ''jmp(L)'']) =
     Inr (init_globals [''fill(0x10,0)'', ''L:'', ''jmp(L)'']
       \<lparr>asm1 := [''FILL 0x10,0'', ''L:'', ''JMP L''], asmSrcLine := [0, 1, 2]\<rparr>)
   \<and> asm_passA (init_globals [''fill(0x10,0)'', ''L:'', ''jmp(L)'']
       \<lparr>asm1 := [''FILL 0x10,0'', ''L:'', ''JMP L''], asmSrcLine := [0, 1, 2]\<rparr>) =
     Inr (5, init_globals [''fill(0x10,0)'', ''L:'', ''jmp(L)'']
       \<lparr>asm1 := [''FILL 0x10,0'', ''L:'', ''JMP L''], asmSrcLine := [0, 1, 2],
        lines2 := [''FILL 0x10,0'', ''L:'', ''JMP L''], lines2AsmIdx := [0, 1, 2],
        lbl2 := [\<lparr>name = ''L'', addr = 0\<rparr>]\<rparr>)
   \<and> line_sz ''FILL 0x10,0'' = Inr 0
   \<and> for_lines passB_line [0..<1] (0, init_globals [''fill(0x10,0)'', ''L:'', ''jmp(L)'']
       \<lparr>asm1 := [''FILL 0x10,0'', ''L:'', ''JMP L''], asmSrcLine := [0, 1, 2],
        lines2 := [''FILL 0x10,0'', ''L:'', ''JMP L''], lines2AsmIdx := [0, 1, 2],
        lbl2 := [\<lparr>name = ''L'', addr = 0\<rparr>]\<rparr>) =
     Inr (16, init_globals [''fill(0x10,0)'', ''L:'', ''jmp(L)'']
       \<lparr>asm1 := [''FILL 0x10,0'', ''L:'', ''JMP L''], asmSrcLine := [0, 1, 2],
        lines2 := [''FILL 0x10,0'', ''L:'', ''JMP L''], lines2AsmIdx := [0, 1, 2],
        lbl2 := [\<lparr>name = ''L'', addr = 0\<rparr>],
        out := \<lparr>fpos = 16, fdata = replicate 16 0\<rparr>\<rparr>)
   \<and> asm_passB (init_globals [''fill(0x10,0)'', ''L:'', ''jmp(L)'']
       \<lparr>asm1 := [''FILL 0x10,0'', ''L:'', ''JMP L''], asmSrcLine := [0, 1, 2],
        lines2 := [''FILL 0x10,0'', ''L:'', ''JMP L''], lines2AsmIdx := [0, 1, 2],
        lbl2 := [\<lparr>name = ''L'', addr = 0\<rparr>]\<rparr>) =
     Inr (21, init_globals [''fill(0x10,0)'', ''L:'', ''jmp(L)'']
       \<lparr>asm1 := [''FILL 0x10,0'', ''L:'', ''JMP L''], asmSrcLine := [0, 1, 2],
        lines2 := [''FILL 0x10,0'', ''L:'', ''JMP L''], lines2AsmIdx := [0, 1, 2],
        lbl2 := [\<lparr>name = ''L'', addr = 0\<rparr>],
        out := \<lparr>fpos = 21, fdata = replicate 16 0 @ [0xE9, 0xEB, 0xFF, 0xFF, 0xFF]\<rparr>\<rparr>)"
proof -
  let ?g0 = "init_globals [''fill(0x10,0)'', ''L:'', ''jmp(L)'']"
  let ?g1 = "?g0\<lparr>asm1 := [''FILL 0x10,0'', ''L:'', ''JMP L''], asmSrcLine := [0, 1, 2]\<rparr>"
  let ?g2 = "?g0\<lparr>asm1 := [''FILL 0x10,0'', ''L:'', ''JMP L''], asmSrcLine := [0, 1, 2],
        lines2 := [''FILL 0x10,0'', ''L:'', ''JMP L''], lines2AsmIdx := [0, 1, 2],
        lbl2 := [\<lparr>name = ''L'', addr = 0\<rparr>]\<rparr>"
  have p1: "pass1 ?g0 = Inr ?g1"
    by (simp add: lower_defs lex_defs state_defs)
  have pA: "asm_passA ?g1 = Inr (5, ?g2)"
    by (simp add: sizer_defs lex_defs state_defs imm_defs)
  have sz: "line_sz ''FILL 0x10,0'' = Inr 0"
    by (simp add: line_sz_def lex_defs imm_defs)
  have b1: "for_lines passB_line [0..<1] (0, ?g2) =
      Inr (16, ?g2\<lparr>out := \<lparr>fpos = 16, fdata = replicate 16 0\<rparr>\<rparr>)"
    by (simp add: emitter_defs lex_defs state_defs imm_defs fill_loop fill_bytes)
  have pB: "asm_passB ?g2 = Inr (21, ?g2\<lparr>out :=
      \<lparr>fpos = 21, fdata = replicate 16 0 @ [0xE9, 0xEB, 0xFF, 0xFF, 0xFF]\<rparr>\<rparr>)"
    by (simp add: emitter_defs lex_defs state_defs imm_defs fill_loop fill_bytes
        e8_append e32_append e32_bytes_def)
  from p1 pA sz b1 pB show ?thesis by simp
qed

subsection \<open>The label table\<close>

text \<open>
  C8. The claim: a label whose name, of up to 15 bytes, equals a recorded name is a fatal
  duplicate, so that every reference has exactly one definition. \<open>recordLabel\<close>
  compares the name as written with the stored names and stores the first 15 characters:
  a label of 16 characters defined twice is accepted, the table then holds its 15-character
  name twice, with the addresses 0 and 2, and the jump to that name takes the first. With
  the name \<open>A\<close> the second definition is the duplicate-label diagnostic, at source line
  index 1.
\<close>

theorem long_label_defined_twice_accepted:
  "translate (file_of [''ABCDEFGHIJKLMNOP:'', ''int(1)'', ''ABCDEFGHIJKLMNOP:'',
       ''jmp(ABCDEFGHIJKLMNO)'']) =
     Inr (init_globals [''ABCDEFGHIJKLMNOP:'', ''int(1)'', ''ABCDEFGHIJKLMNOP:'',
         ''jmp(ABCDEFGHIJKLMNO)'']
       \<lparr>asm1 := [''ABCDEFGHIJKLMNOP:'', ''INT 1'', ''ABCDEFGHIJKLMNOP:'', ''JMP ABCDEFGHIJKLMNO''],
        asmSrcLine := [0, 1, 2, 3],
        lines2 := [''ABCDEFGHIJKLMNOP:'', ''INT 1'', ''ABCDEFGHIJKLMNOP:'', ''JMP ABCDEFGHIJKLMNO''],
        lines2AsmIdx := [0, 1, 2, 3],
        lbl2 := [\<lparr>name = ''ABCDEFGHIJKLMNO'', addr = 0\<rparr>, \<lparr>name = ''ABCDEFGHIJKLMNO'', addr = 2\<rparr>],
        out := \<lparr>fpos = 7, fdata = [0xCD, 1, 0xE9, 0xF9, 0xFF, 0xFF, 0xFF]\<rparr>\<rparr>)
   \<and> translate (file_of [''A:'', ''A:'']) = Inl (DieAsm 1 (DuplicateLabel ''A''))"
proof -
  let ?P = "[''ABCDEFGHIJKLMNOP:'', ''int(1)'', ''ABCDEFGHIJKLMNOP:'', ''jmp(ABCDEFGHIJKLMNO)'']"
  let ?g1 = "init_globals ?P\<lparr>asm1 := [''ABCDEFGHIJKLMNOP:'', ''INT 1'', ''ABCDEFGHIJKLMNOP:'',
        ''JMP ABCDEFGHIJKLMNO''], asmSrcLine := [0, 1, 2, 3]\<rparr>"
  let ?g2 = "?g1\<lparr>lines2 := [''ABCDEFGHIJKLMNOP:'', ''INT 1'', ''ABCDEFGHIJKLMNOP:'',
        ''JMP ABCDEFGHIJKLMNO''], lines2AsmIdx := [0, 1, 2, 3],
        lbl2 := [\<lparr>name = ''ABCDEFGHIJKLMNO'', addr = 0\<rparr>, \<lparr>name = ''ABCDEFGHIJKLMNO'', addr = 2\<rparr>]\<rparr>"
  have rd: "read_src (file_of ?P) = Inr ?P"
    by (simp add: read_src_def read_lines.simps fgets_def c_str_def file_of_def state_defs)
  have p1: "pass1 (init_globals ?P) = Inr ?g1"
    by (simp add: lower_defs lex_defs state_defs)
  have pA: "asm_passA ?g1 = Inr (7, ?g2)"
    by (simp add: sizer_defs lex_defs state_defs imm_defs)
  have pB: "asm_passB ?g2 = Inr (7, ?g2\<lparr>out :=
      \<lparr>fpos = 7, fdata = [0xCD, 1, 0xE9, 0xF9, 0xFF, 0xFF, 0xFF]\<rparr>\<rparr>)"
    by (simp add: emitter_defs lex_defs state_defs imm_defs e8_append e32_append e32_bytes_def)
  have long: "translate (file_of ?P) = Inr (?g2\<lparr>out :=
      \<lparr>fpos = 7, fdata = [0xCD, 1, 0xE9, 0xF9, 0xFF, 0xFF, 0xFF]\<rparr>\<rparr>)"
    by (simp only: translate_def rd p1 pA pB sum.case prod.case)
  have short: "translate (file_of [''A:'', ''A:'']) = Inl (DieAsm 1 (DuplicateLabel ''A''))"
    by (simp add: read_defs lower_defs sizer_defs lex_defs state_defs)
  from long short show ?thesis by simp
qed

subsection \<open>The loader and long lines\<close>

lemma takeWhile_line:
  assumes "CHR 0x0A \<notin> set l"
  shows "takeWhile (\<lambda>c. c \<noteq> CHR 0x0A) (l @ CHR 0x0A # rest) = l"
proof -
  have "\<And>x. x \<in> set l \<Longrightarrow> x \<noteq> CHR 0x0A" using assms by auto
  then have "takeWhile (\<lambda>c. c \<noteq> CHR 0x0A) (l @ CHR 0x0A # rest) =
      l @ takeWhile (\<lambda>c. c \<noteq> CHR 0x0A) (CHR 0x0A # rest)"
    by (rule takeWhile_append2)
  then show ?thesis by simp
qed

text \<open>One call of \<open>fgets\<close> on a line: its first 79 bytes, the rest stays unread.\<close>

lemma fgets_line:
  assumes "CHR 0x0A \<notin> set l"
  shows "fgets LNSZ (l @ CHR 0x0A # rest) =
     Some (take 79 (l @ [CHR 0x0A]), drop 79 (l @ [CHR 0x0A]) @ rest)"
proof (cases "length l < 79")
  case True
  then have "min (LNSZ - 1) (Suc (length l)) = Suc (length l)"
    by (simp add: LNSZ_def)
  moreover have "take (Suc (length l)) (l @ CHR 0x0A # rest) = l @ [CHR 0x0A]"
    and "drop (Suc (length l)) (l @ CHR 0x0A # rest) = rest"
    by simp_all
  ultimately show ?thesis
    using True by (simp add: fgets_def takeWhile_line [OF assms] Let_def)
next
  case False
  then have "min (LNSZ - 1) (Suc (length l)) = 79"
    by (simp add: LNSZ_def)
  then show ?thesis
    using False by (simp add: fgets_def takeWhile_line [OF assms] Let_def)
qed







lemma read_lines_step:
  assumes "fgets LNSZ f = Some (buf, rest)"
  shows "read_lines f acc =
     (let t = trim (c_str buf) in
      if t \<noteq> [] \<and> hd t \<noteq> CHR '';'' then
        (if length acc \<ge> MAXL then Inl (Die TooManySourceLines)
         else read_lines rest (acc @ [t]))
      else read_lines rest acc)"
  by (simp add: read_lines.simps [of f] assms)

lemma read_lines_end: "read_lines [] acc = Inr acc"
  by (simp add: read_lines.simps [of "[]"] fgets_def)






subsection \<open>The round trip of \<open>db\<close>\<close>

text \<open>
  A well-formed literal: decimal digits, or \<open>0x\<close> and hexadecimal digits, at least one
  digit in either form; \<open>lit_val\<close> is the number it writes.
\<close>

definition dec_lit :: "string \<Rightarrow> bool" where
  "dec_lit s = (s \<noteq> [] \<and> list_all (is_digit 10) s)"

definition hex_lit :: "string \<Rightarrow> bool" where
  "hex_lit s = (take 2 s = ''0x'' \<and> drop 2 s \<noteq> [] \<and> list_all (is_digit 16) (drop 2 s))"

definition lit_val :: "string \<Rightarrow> nat" where
  "lit_val s = (if take 2 s = ''0x'' then digits_val 16 (drop 2 s) else digits_val 10 s)"

definition byte_lit :: "string \<Rightarrow> bool" where
  "byte_lit s = ((dec_lit s \<or> hex_lit s) \<and> lit_val s \<le> 255)"

fun join_commas :: "string list \<Rightarrow> string" where
  "join_commas [] = []"
| "join_commas [x] = x"
| "join_commas (x # y # ys) = x @ '','' @ join_commas (y # ys)"

definition db_line :: "string list \<Rightarrow> string" where
  "db_line xs = ''db('' @ join_commas xs @ '')''"

text \<open>The characters of a literal are no white space, delimiter, sign, newline or NUL.\<close>

definition lit_char :: "char \<Rightarrow> bool" where
  "lit_char c = (is_digit 16 c \<or> c = CHR ''x'')"

lemma is_digit_10_16: "is_digit 10 c \<Longrightarrow> is_digit 16 c"
  by (simp add: is_digit_def)

lemma hex_digit_plain:
  assumes "is_digit 16 c"
  shows "\<not> is_delim c" "\<not> is_blank c" "\<not> is_trail c" "\<not> isspace c" "c \<noteq> CHR 0x0A"
    "c \<noteq> CHR 0x00" "c \<noteq> CHR ''-''" "c \<noteq> CHR ''+''" "c \<noteq> CHR ''x''" "c \<noteq> CHR ''X''"
    "c \<noteq> CHR '')''" "c \<noteq> CHR '';''"
  using assms
  by (auto simp: is_digit_def digit_val_def is_delim_def is_blank_def is_trail_def isspace_def
      Let_def split: if_splits)

lemma lit_char_plain:
  assumes "lit_char c"
  shows "\<not> is_delim c" "\<not> is_blank c" "\<not> is_trail c" "c \<noteq> CHR 0x0A" "c \<noteq> CHR 0x00"
  using assms hex_digit_plain [of c]
  by (auto simp: lit_char_def is_delim_def is_blank_def is_trail_def)

lemma take2_0x:
  assumes "take 2 s = ''0x''"
  shows "\<exists>r. s = CHR ''0'' # CHR ''x'' # r"
proof (cases s)
  case Nil
  with assms show ?thesis by simp
next
  case s: (Cons a t)
  show ?thesis
  proof (cases t)
    case Nil
    with s assms show ?thesis by simp
  next
    case (Cons b u)
    with s assms show ?thesis by simp
  qed
qed

lemma byte_lit_chars:
  assumes "byte_lit s"
  shows "s \<noteq> []" and "list_all lit_char s"
proof -
  from assms have "dec_lit s \<or> hex_lit s" by (simp add: byte_lit_def)
  then show "s \<noteq> []"
    by (auto simp: dec_lit_def hex_lit_def)
  from \<open>dec_lit s \<or> hex_lit s\<close> show "list_all lit_char s"
  proof
    assume "dec_lit s"
    then show ?thesis
      by (auto simp: dec_lit_def lit_char_def list_all_iff intro: is_digit_10_16)
  next
    assume h: "hex_lit s"
    then obtain r where r: "s = CHR ''0'' # CHR ''x'' # r"
      using take2_0x by (auto simp: hex_lit_def)
    from h have "list_all lit_char (drop 2 s)"
      by (auto simp: hex_lit_def lit_char_def list_all_iff)
    moreover have "lit_char CHR ''0''" "lit_char CHR ''x''"
      by (simp_all add: lit_char_def is_digit_def digit_val_def)
    ultimately show ?thesis
      by (simp add: r)
  qed
qed

text \<open>\<open>strtoul\<close> on a run of digits reads all of it.\<close>

lemma scan_digits:
  assumes "ds \<noteq> []" and "list_all (is_digit b) ds" and "b = 10 \<or> b = 16"
  shows "scan_int b ds = Some (False, digits_val b ds, [])"
proof -
  obtain c cs where ds: "ds = c # cs" using assms(1) by (cases ds) auto
  with assms(2,3) have c: "is_digit 16 c"
    by (auto intro: is_digit_10_16)
  have all16: "list_all (is_digit 16) ds"
    using assms(2,3) by (auto simp: list_all_iff intro: is_digit_10_16)
  have sp: "dropWhile isspace ds = ds"
    using hex_digit_plain(4) [OF c] by (simp add: ds)
  have sg: "scan_sign ds = (False, ds)"
    using hex_digit_plain(7,8) [OF c] by (simp add: ds scan_sign_def)
  have hp: "\<not> hex_prefix ds"
  proof (cases cs)
    case Nil
    then show ?thesis by (simp add: ds hex_prefix_def)
  next
    case (Cons d es)
    with all16 ds have "is_digit 16 d" by simp
    from hex_digit_plain(9,10) [OF this] show ?thesis
      by (simp add: ds Cons hex_prefix_def split: list.splits)
  qed
  have tw: "takeWhile (is_digit b) ds = ds" "dropWhile (is_digit b) ds = []"
    using assms(2) by (simp_all add: list_all_iff)
  from assms(3) show ?thesis
    by (auto simp: scan_int_def sp sg hp tw assms(1))
qed

lemma parseImm_byte_lit:
  assumes "byte_lit s"
  shows "parseImm s = Inr (of_nat (lit_val s))" and "\<not> (of_nat (lit_val s) :: 32 word) > 0xFF"
proof -
  from assms have v: "lit_val s \<le> 255" and form: "dec_lit s \<or> hex_lit s"
    by (simp_all add: byte_lit_def)
  have cast: "ucast (of_nat (lit_val s) :: 64 word) = (of_nat (lit_val s) :: 32 word)"
    using v by (simp add: unsigned_of_nat take_bit_nat_eq_self)
  have big: "\<not> lit_val s > 2 ^ 64 - 1" using v by simp
  from form show "parseImm s = Inr (of_nat (lit_val s))"
  proof
    assume h: "hex_lit s"
    then have p: "take 2 s = ''0x''" and d: "drop 2 s \<noteq> []" "list_all (is_digit 16) (drop 2 s)"
      by (simp_all add: hex_lit_def)
    from scan_digits [OF d] have "scan_int 16 (drop 2 s) = Some (False, digits_val 16 (drop 2 s), [])"
      by simp
    with p big cast show ?thesis
      by (simp add: parseImm_def strtoul_def lit_val_def)
  next
    assume h: "dec_lit s"
    then have d: "s \<noteq> []" "list_all (is_digit 10) s"
      by (simp_all add: dec_lit_def)
    have p: "take 2 s \<noteq> ''0x''"
    proof
      assume "take 2 s = ''0x''"
      then obtain r where "s = CHR ''0'' # CHR ''x'' # r"
        using take2_0x by blast
      with d(2) have "is_digit 10 CHR ''x''" by simp
      then show False by (simp add: is_digit_def digit_val_def)
    qed
    from scan_digits [OF d] have "scan_int 10 s = Some (False, digits_val 10 s, [])"
      by simp
    with p big cast show ?thesis
      by (simp add: parseImm_def strtoul_def lit_val_def)
  qed
  have "unat (of_nat (lit_val s) :: 32 word) = lit_val s"
    using v by (simp add: unat_of_nat)
  then show "\<not> (of_nat (lit_val s) :: 32 word) > 0xFF"
    using v by (simp add: word_less_nat_alt)
qed


text \<open>Tokens: literals joined by commas come back one by one.\<close>

definition tok_ok :: "string \<Rightarrow> bool" where
  "tok_ok x = (x \<noteq> [] \<and> list_all non_delim x)"

lemma strtok_r_token:
  assumes "tok_ok x"
  shows "strtok_r (x @ CHR '','' # rest) = Some (x, rest)" and "strtok_r x = Some (x, [])"
proof -
  from assms obtain c cs where x: "x = c # cs" and c: "\<not> is_delim c"
    by (cases x) (auto simp: tok_ok_def non_delim_def)
  have nd: "\<And>y. y \<in> set x \<Longrightarrow> non_delim y"
    using assms by (simp add: tok_ok_def list_all_iff)
  have d1: "dropWhile is_delim (x @ ys) = x @ ys" for ys
    using c by (simp add: x)
  have t1: "takeWhile non_delim (x @ CHR '','' # rest) = x"
    using takeWhile_append2 [of x non_delim "CHR '','' # rest"] nd
    by (simp add: non_delim_def is_delim_def)
  have t2: "dropWhile non_delim (x @ CHR '','' # rest) = CHR '','' # rest"
    using dropWhile_append2 [of x non_delim "CHR '','' # rest"] nd
    by (simp add: non_delim_def is_delim_def)
  show "strtok_r (x @ CHR '','' # rest) = Some (x, rest)"
    unfolding strtok_r_def Let_def d1 t1 t2 by simp
  have t3: "takeWhile non_delim x = x" "dropWhile non_delim x = []"
    using nd by simp_all
  show "strtok_r x = Some (x, [])"
    unfolding strtok_r_def Let_def d1 [of "[]", simplified] t3 using x by simp
qed

lemma all_toks_Nil: "all_toks [] = []"
  by (simp add: all_toks.simps [of "[]"] strtok_r_def)

lemma all_toks_join:
  assumes "list_all tok_ok xs"
  shows "all_toks (join_commas xs) = xs"
  using assms
proof (induction xs rule: join_commas.induct)
  case 1
  then show ?case by (simp add: all_toks_Nil)
next
  case (2 x)
  then have "strtok_r x = Some (x, [])" by (simp add: strtok_r_token)
  then show ?case by (simp add: all_toks.simps [of x] all_toks_Nil)
next
  case (3 x y ys)
  then have "strtok_r (x @ CHR '','' # join_commas (y # ys)) = Some (x, join_commas (y # ys))"
    by (simp add: strtok_r_token)
  with 3 show ?case
    by (simp add: all_toks.simps [of "x @ CHR '','' # join_commas (y # ys)"])
qed

lemma byte_lit_tok_ok:
  assumes "byte_lit x"
  shows "tok_ok x"
  using byte_lit_chars [OF assms] lit_char_plain(1)
  by (auto simp: tok_ok_def list_all_iff non_delim_def)

lemma join_chars:
  assumes "list_all (list_all P) xs" and "P CHR '',''"
  shows "list_all P (join_commas xs)"
  using assms by (induction xs rule: join_commas.induct) simp_all

lemma join_last:
  assumes "xs \<noteq> []" and "list_all (\<lambda>x. x \<noteq> []) xs"
  shows "join_commas xs \<noteq> [] \<and> last (join_commas xs) = last (last xs)"
  using assms by (induction xs rule: join_commas.induct) simp_all

text \<open>The loop of \<open>DB\<close> on literals of a byte each.\<close>

lemma emit_db_bytes:
  assumes "list_all byte_lit xs"
  shows "emit_db i xs (pc, g) =
     Inr (pc + of_nat (length xs), fold e8 (map (\<lambda>x. of_nat (lit_val x)) xs) g)"
  using assms
proof (induction xs arbitrary: pc g)
  case Nil
  then show ?case by simp
next
  case (Cons x xs)
  then have x: "byte_lit x" and xs: "list_all byte_lit xs" by simp_all
  have v: "lit_val x \<le> 255" using x by (simp add: byte_lit_def)
  have cast: "ucast (of_nat (lit_val x) :: 32 word) = (of_nat (lit_val x) :: 8 word)"
    using v by (simp add: unsigned_of_nat take_bit_nat_eq_self)
  show ?case
    using parseImm_byte_lit [OF x] Cons.IH [OF xs, of "pc + 1" "e8 (of_nat (lit_val x)) g"]
    by (simp add: cast add.assoc)
qed

text \<open>A line with no blank at its start and no white space at its end is read as it is.\<close>

lemma trim_clean:
  assumes "l \<noteq> []" and "\<not> is_blank (hd l)" and "\<not> is_trail (last l)"
  shows "trim l = l" and "trim (l @ [CHR 0x0A]) = l"
proof -
  obtain c cs where l: "l = c # cs" using assms(1) by (cases l) auto
  have b: "dropWhile is_blank (l @ ys) = l @ ys" for ys
    using assms(2) by (simp add: l)
  have r: "dropWhile is_trail (rev l) = rev l"
    using assms(1,3) by (cases "rev l") (auto simp: last_rev hd_rev)
  show "trim l = l"
    using b [of "[]"] r by (simp add: trim_def)
  show "trim (l @ [CHR 0x0A]) = l"
    unfolding trim_def b using r by (simp add: is_trail_def)
qed

lemma c_str_id:
  assumes "CHR 0x00 \<notin> set s"
  shows "c_str s = s"
  using assms by (auto simp: c_str_def takeWhile_eq_all_conv)

lemma read_one_line:
  assumes "l \<noteq> []" and "\<not> is_blank (hd l)" and "\<not> is_trail (last l)" and "hd l \<noteq> CHR '';''"
    and "CHR 0x0A \<notin> set l" and "CHR 0x00 \<notin> set l" and "length l \<le> 79"
  shows "read_src (file_of [l]) = Inr [l]"
proof (cases "length l < 79")
  case True
  then have f: "fgets LNSZ (l @ [CHR 0x0A]) = Some (l @ [CHR 0x0A], [])"
    using fgets_line [OF assms(5), of "[]"] by simp
  have "c_str (l @ [CHR 0x0A]) = l @ [CHR 0x0A]"
    using assms(6) by (simp add: c_str_id)
  then have t: "trim (c_str (l @ [CHR 0x0A])) = l"
    using trim_clean(2) [OF assms(1-3)] by simp
  show ?thesis
    using assms(1,4)
    by (simp add: read_src_def file_of_def read_lines_step [OF f] t read_lines_end MAXL_def)
next
  case False
  with assms(7) have len: "length l = 79" by simp
  then have f: "fgets LNSZ (l @ [CHR 0x0A]) = Some (l, [CHR 0x0A])"
    using fgets_line [OF assms(5), of "[]"] by simp
  have t: "trim (c_str l) = l"
    using assms(6) trim_clean(1) [OF assms(1-3)] by (simp add: c_str_id)
  have f2: "fgets LNSZ [CHR 0x0A] = Some ([CHR 0x0A], [])"
    using fgets_line [of "[]" "[]"] by simp
  have t2: "trim (c_str [CHR 0x0A]) = []"
    by (simp add: c_str_def trim_def is_blank_def is_trail_def)
  show ?thesis
    using assms(1,4)
    by (simp add: read_src_def file_of_def read_lines_step [OF f] t read_lines_step [OF f2] t2
        read_lines_end MAXL_def)
qed

text \<open>The lowered line \<open>DB\<close> and its tokens.\<close>

lemma strtok_r_DB: "strtok_r (''DB '' @ j) = Some (''DB'', j)"
  by (simp add: strtok_r_def is_delim_def non_delim_def)

lemma trim_DB:
  assumes "j = [] \<or> \<not> is_trail (last j)"
  shows "trim (''DB '' @ j) = (if j = [] then ''DB'' else ''DB '' @ j)"
    and "trim_buf (''DB '' @ j) = (if j = [] then ''DB'' else ''DB '' @ j)"
proof -
  show t: "trim (''DB '' @ j) = (if j = [] then ''DB'' else ''DB '' @ j)"
  proof (cases "j = []")
    case True
    then show ?thesis by (simp add: trim_def is_blank_def is_trail_def)
  next
    case False
    with assms have "\<not> is_trail (last (''DB '' @ j))" by simp
    moreover have "\<not> is_blank (hd (''DB '' @ j))" by (simp add: is_blank_def)
    ultimately show ?thesis
      using False trim_clean(1) [of "''DB '' @ j"] by simp
  qed
  have "takeWhile is_blank (''DB '' @ j) = []"
    by (simp add: is_blank_def)
  with t show "trim_buf (''DB '' @ j) = (if j = [] then ''DB'' else ''DB '' @ j)"
    by (simp add: trim_buf_def)
qed

lemma strtok_r_DB_trim:
  assumes "j = [] \<or> \<not> is_trail (last j)"
  shows "strtok_r (trim (''DB '' @ j)) = Some (''DB'', j)"
    and "strtok_r (trim_buf (''DB '' @ j)) = Some (''DB'', j)"
proof -
  have db: "strtok_r ''DB'' = Some (''DB'', [])"
    by (simp add: strtok_r_def is_delim_def non_delim_def)
  show "strtok_r (trim (''DB '' @ j)) = Some (''DB'', j)"
    unfolding trim_DB(1) [OF assms] using db strtok_r_DB [of j] by (cases "j = []") simp_all
  show "strtok_r (trim_buf (''DB '' @ j)) = Some (''DB'', j)"
    unfolding trim_DB(2) [OF assms] using db strtok_r_DB [of j] by (cases "j = []") simp_all
qed


lemma line_sz_DB:
  assumes "j = [] \<or> \<not> is_trail (last j)"
  shows "line_sz (''DB '' @ j) = Inr (of_nat (length (all_toks j)))"
    and "line_sz (trim_buf (''DB '' @ j)) = Inr (of_nat (length (all_toks j)))"
  unfolding line_sz_def strtok_r_DB strtok_r_DB_trim(2) [OF assms] by simp_all

lemma pass1_db:
  "pass1 (init_globals [''db('' @ j @ '')'']) =
     Inr (init_globals [''db('' @ j @ '')'']\<lparr>asm1 := [''DB '' @ j], asmSrcLine := [0]\<rparr>)"
proof -
  have "trim (''db('' @ j @ '')'') = ''db('' @ j @ '')''"
    by (rule trim_clean(1)) (simp_all add: is_blank_def is_trail_def)
  then show ?thesis
    by (simp add: lower_defs call_form_def payload_def tolower_def init_globals_def MAXL_def)
qed

lemma passA_db:
  assumes "j = [] \<or> \<not> is_trail (last j)"
    and "asm1 g = [''DB '' @ j]" and "lines2 g = []" and "lines2AsmIdx g = []"
  shows "asm_passA g = Inr (of_nat (length (all_toks j)),
     g\<lparr>lines2 := [trim_buf (''DB '' @ j)], lines2AsmIdx := [0]\<rparr>)"
proof -
  define L where "L = ''DB '' @ j"
  define T where "T = trim_buf L"
  have tok: "strtok_r (trim L) = Some (''DB'', j)"
    unfolding L_def by (rule strtok_r_DB_trim(1) [OF assms(1)])
  have sz: "line_sz T = Inr (of_nat (length (all_toks j)))"
    unfolding T_def L_def by (rule line_sz_DB(2) [OF assms(1)])
  have clone: "for_lines clone_line [0..<length (asm1 g)] g =
      Inr (g\<lparr>lines2 := [L], lines2AsmIdx := [0]\<rparr>)"
    using assms(2-4) by (simp add: clone_line_def MAXL_def L_def)
  have line: "passA_line 0 (0, g\<lparr>lines2 := [L], lines2AsmIdx := [0]\<rparr>) =
      Inr (of_nat (length (all_toks j)), g\<lparr>lines2 := [T], lines2AsmIdx := [0]\<rparr>)"
    using tok sz by (simp add: passA_line_def Let_def T_def [symmetric])
  show ?thesis
    unfolding asm_passA_def clone using line
    by (simp add: T_def L_def)
qed

lemma passB_db:
  assumes "lines2 g = [T]" and "strtok_r T = Some (''DB'', j)" and "all_toks j = xs"
    and "list_all byte_lit xs" and "out g = \<lparr>fpos = 0, fdata = []\<rparr>"
  shows "asm_passB g = Inr (of_nat (length xs),
     g\<lparr>out := \<lparr>fpos = length xs, fdata = map (\<lambda>x. of_nat (lit_val x)) xs\<rparr>\<rparr>)"
proof -
  have "passB_line 0 (0, g) = emit_db 0 xs (0, g)"
    using assms(1-3) by (simp add: passB_line_def)
  also have "\<dots> = Inr (of_nat (length xs), fold e8 (map (\<lambda>x. of_nat (lit_val x)) xs) g)"
    using emit_db_bytes [OF assms(4), of 0 0 g] by simp
  also have "fold e8 (map (\<lambda>x. of_nat (lit_val x)) xs) g =
      g\<lparr>out := \<lparr>fpos = length xs, fdata = map (\<lambda>x. of_nat (lit_val x)) xs\<rparr>\<rparr>"
    using fputs_append [of "out g" "map (\<lambda>x. of_nat (lit_val x)) xs"] assms(5)
    by (simp add: fold_e8_out)
  finally show ?thesis
    using assms(1) by (simp add: asm_passB_def)
qed


text \<open>
  C7, as the claim states it: every one-line program \<open>db(x1,...,xN)\<close> of byte literals is
  translated. Twenty literals \<open>0x01\<close> make a line of 103 bytes; the loader reads it in two
  pieces, neither is a \<open>db(...)\<close> form, and the emitter ends in \<open>unknown directive\<close>.
\<close>

theorem db_line_over_cap_fails:
  "list_all byte_lit (replicate 20 ''0x01'')
   \<and> length (db_line (replicate 20 ''0x01'')) = 103
   \<and> translate (file_of [db_line (replicate 20 ''0x01'')]) =
       Inl (DieAsm 0 (UnknownDirective ''db(0x01''))"
proof -
  have lit: "byte_lit ''0x01''"
    by (simp add: byte_lit_def hex_lit_def dec_lit_def lit_val_def is_digit_def digit_val_def
        digits_val_def)
  then have all: "list_all byte_lit (replicate 20 ''0x01'')"
    by (simp add: list_all_iff)
  have line: "db_line (replicate 20 ''0x01'') = ''db(0x01,0x01,0x01,0x01,0x01,0x01,0x01,0x01,0x01,0x01,0x01,0x01,0x01,0x01,0x01,0x01,0x01,0x01,0x01,0x01)''"
    by (simp add: db_line_def eval_nat_numeral)
  have rd: "read_src (file_of [''db(0x01,0x01,0x01,0x01,0x01,0x01,0x01,0x01,0x01,0x01,0x01,0x01,0x01,0x01,0x01,0x01,0x01,0x01,0x01,0x01)'']) =
      Inr [''db(0x01,0x01,0x01,0x01,0x01,0x01,0x01,0x01,0x01,0x01,0x01,0x01,0x01,0x01,0x01,0'', ''x01,0x01,0x01,0x01,0x01)'']"
    by (simp add: read_src_def read_lines.simps fgets_def c_str_def file_of_def state_defs)
  let ?g1 = "init_globals [''db(0x01,0x01,0x01,0x01,0x01,0x01,0x01,0x01,0x01,0x01,0x01,0x01,0x01,0x01,0x01,0'', ''x01,0x01,0x01,0x01,0x01)'']\<lparr>asm1 := [''db(0x01,0x01,0x01,0x01,0x01,0x01,0x01,0x01,0x01,0x01,0x01,0x01,0x01,0x01,0x01,0'', ''x01,0x01,0x01,0x01,0x01)''], asmSrcLine := [0, 1]\<rparr>"
  have p1: "pass1 (init_globals [''db(0x01,0x01,0x01,0x01,0x01,0x01,0x01,0x01,0x01,0x01,0x01,0x01,0x01,0x01,0x01,0'', ''x01,0x01,0x01,0x01,0x01)'']) = Inr ?g1"
    by (simp add: lower_defs lex_defs state_defs)
  have pA: "asm_passA ?g1 = Inr (0, ?g1\<lparr>lines2 := [''db(0x01,0x01,0x01,0x01,0x01,0x01,0x01,0x01,0x01,0x01,0x01,0x01,0x01,0x01,0x01,0'', ''x01,0x01,0x01,0x01,0x01)''], lines2AsmIdx := [0, 1]\<rparr>)"
    by (simp add: sizer_defs lex_defs state_defs)
  have pB: "asm_passB (?g1\<lparr>lines2 := [''db(0x01,0x01,0x01,0x01,0x01,0x01,0x01,0x01,0x01,0x01,0x01,0x01,0x01,0x01,0x01,0'', ''x01,0x01,0x01,0x01,0x01)''], lines2AsmIdx := [0, 1]\<rparr>) =
      Inl (DieAsm 0 (UnknownDirective ''db(0x01''))"
    by (simp add: emitter_defs lex_defs state_defs)
  have "translate (file_of [''db(0x01,0x01,0x01,0x01,0x01,0x01,0x01,0x01,0x01,0x01,0x01,0x01,0x01,0x01,0x01,0x01,0x01,0x01,0x01,0x01)'']) = Inl (DieAsm 0 (UnknownDirective ''db(0x01''))"
    by (simp only: translate_def rd p1 pA pB sum.case prod.case)
  with all line show ?thesis by simp
qed

text \<open>
  C7, amended. For byte literals \<open>x1 ... xN\<close> (decimal, or \<open>0x\<close> and hexadecimal digits,
  of value at most 255) whose line \<open>db(x1,...,xN)\<close> has at most 79 bytes, the file that
  holds this one line is translated: it is lowered to the one line \<open>DB x1,...,xN\<close>, the
  output file holds exactly \<open>N\<close> bytes, byte \<open>i\<close> (from offset 0) the value of \<open>xi\<close>, and
  the sizer gives the lowered line the size \<open>N\<close>.
\<close>

theorem db_round_trip:
  assumes "list_all byte_lit xs" and "length (db_line xs) \<le> 79"
  shows "\<exists>g. translate (file_of [db_line xs]) = Inr g
    \<and> asm1 g = [''DB '' @ join_commas xs]
    \<and> fdata (out g) = map (\<lambda>x. of_nat (lit_val x)) xs
    \<and> length (fdata (out g)) = length xs
    \<and> (\<forall>i. i < length xs \<longrightarrow> fdata (out g) ! i = of_nat (lit_val (xs ! i)))
    \<and> line_sz (''DB '' @ join_commas xs) = Inr (of_nat (length xs))"
proof -
  define j where "j = join_commas xs"
  define l where "l = ''db('' @ j @ '')''"
  have l: "db_line xs = l" by (simp add: db_line_def l_def j_def)
  have toks: "list_all tok_ok xs"
    using assms(1) by (auto simp: list_all_iff intro: byte_lit_tok_ok)
  have all: "all_toks j = xs"
    unfolding j_def using toks by (rule all_toks_join)
  have chars: "list_all (list_all (\<lambda>c. c \<noteq> CHR 0x0A \<and> c \<noteq> CHR 0x00)) xs"
    unfolding list_all_iff
  proof (intro ballI)
    fix x c
    assume "x \<in> set xs" and c: "c \<in> set x"
    with assms(1) have "byte_lit x" by (simp add: list_all_iff)
    then have "list_all lit_char x" by (rule byte_lit_chars(2))
    with c have "lit_char c" by (simp add: list_all_iff)
    then show "c \<noteq> CHR 0x0A \<and> c \<noteq> CHR 0x00"
      using lit_char_plain(4,5) by blast
  qed
  have jc: "list_all (\<lambda>c. c \<noteq> CHR 0x0A \<and> c \<noteq> CHR 0x00) j"
    unfolding j_def using chars by (rule join_chars) simp
  have jt: "j = [] \<or> \<not> is_trail (last j)"
  proof (cases "xs = []")
    case True
    then show ?thesis by (simp add: j_def)
  next
    case False
    have ne: "list_all (\<lambda>x. x \<noteq> []) xs"
      using assms(1) byte_lit_chars(1) by (auto simp: list_all_iff)
    from join_last [OF False ne] have "last j = last (last xs)" by (simp add: j_def)
    moreover have "byte_lit (last xs)"
      using assms(1) False by (simp add: list_all_iff)
    then have "last xs \<noteq> []" "list_all lit_char (last xs)"
      by (rule byte_lit_chars)+
    then have "lit_char (last (last xs))"
      by (simp add: list_all_iff)
    ultimately show ?thesis
      using lit_char_plain(3) by simp
  qed
  have rd: "read_src (file_of [l]) = Inr [l]"
  proof (rule read_one_line)
    show "l \<noteq> []" "\<not> is_blank (hd l)" "\<not> is_trail (last l)" "hd l \<noteq> CHR '';''"
      by (simp_all add: l_def is_blank_def is_trail_def)
    show "CHR 0x0A \<notin> set l" "CHR 0x00 \<notin> set l"
      using jc by (auto simp: l_def list_all_iff)
    show "length l \<le> 79" using assms(2) l by simp
  qed
  let ?g1 = "init_globals [l]\<lparr>asm1 := [''DB '' @ j], asmSrcLine := [0]\<rparr>"
  let ?g2 = "?g1\<lparr>lines2 := [trim_buf (''DB '' @ j)], lines2AsmIdx := [0]\<rparr>"
  let ?g3 = "?g2\<lparr>out := \<lparr>fpos = length xs, fdata = map (\<lambda>x. of_nat (lit_val x)) xs\<rparr>\<rparr>"
  have p1: "pass1 (init_globals [l]) = Inr ?g1"
    unfolding l_def by (rule pass1_db)
  have pA: "asm_passA ?g1 = Inr (of_nat (length xs), ?g2)"
    using passA_db [OF jt, of ?g1] all by (simp add: init_globals_def)
  have pB: "asm_passB ?g2 = Inr (of_nat (length xs), ?g3)"
    by (rule passB_db [OF _ strtok_r_DB_trim(2) [OF jt] all assms(1)])
      (simp_all add: init_globals_def)
  have tr: "translate (file_of [db_line xs]) = Inr ?g3"
    by (simp only: translate_def l rd p1 pA pB sum.case prod.case)
  have sz: "line_sz (''DB '' @ join_commas xs) = Inr (of_nat (length xs))"
    using line_sz_DB(1) [OF jt] all by (simp add: j_def)
  have "asm1 ?g3 = [''DB '' @ join_commas xs]"
    and "fdata (out ?g3) = map (\<lambda>x. of_nat (lit_val x)) xs"
    by (simp_all add: j_def)
  with tr sz show ?thesis
    by (intro exI [of _ ?g3]) simp
qed

theorem db_round_trip_witness:
  "translate (file_of [''db(0xAA,7)'']) =
     Inr (init_globals [''db(0xAA,7)'']\<lparr>asm1 := [''DB 0xAA,7''], asmSrcLine := [0],
       lines2 := [''DB 0xAA,7''], lines2AsmIdx := [0], out := \<lparr>fpos = 2, fdata = [0xAA, 7]\<rparr>\<rparr>)
   \<and> line_sz ''DB 0xAA,7'' = Inr 2"
proof -
  have lits: "list_all byte_lit [''0xAA'', ''7'']"
    by (simp add: byte_lit_def hex_lit_def dec_lit_def lit_val_def is_digit_def digit_val_def
        digits_val_def)
  have len: "length (db_line [''0xAA'', ''7'']) \<le> 79"
    by (simp add: db_line_def)
  from db_round_trip [OF lits len] obtain g
    where tr: "translate (file_of [db_line [''0xAA'', ''7'']]) = Inr g"
      and out: "fdata (out g) = map (\<lambda>x. of_nat (lit_val x)) [''0xAA'', ''7'']"
      and sz: "line_sz (''DB '' @ join_commas [''0xAA'', ''7'']) = Inr (of_nat (length [''0xAA'', ''7'']))"
    by blast
  have ev: "translate (file_of [''db(0xAA,7)'']) =
     Inr (init_globals [''db(0xAA,7)'']\<lparr>asm1 := [''DB 0xAA,7''], asmSrcLine := [0],
       lines2 := [''DB 0xAA,7''], lines2AsmIdx := [0], out := \<lparr>fpos = 2, fdata = [0xAA, 7]\<rparr>\<rparr>)"
    by (simp add: read_defs lower_defs sizer_defs emitter_defs lex_defs state_defs imm_defs
        all_toks.simps e8_append)
  from sz have "line_sz ''DB 0xAA,7'' = Inr 2" by simp
  with ev tr out show ?thesis by simp
qed


text \<open>
  A line that \<open>trim\<close> returned is left as it is by a second \<open>trim\<close>, also in place: the
  lines of \<open>src\<close>, which the loader trimmed, are not changed by the \<open>trim\<close> of pass 1.
\<close>

lemma trim_buf_trim: "trim_buf (trim s) = trim s"
proof (rule trim_buf_clean)
  let ?xs = "dropWhile is_trail (rev (dropWhile is_blank s))"
  show "trim s = [] \<or> \<not> is_trail (last (trim s))"
  proof (cases "?xs = []")
    case True
    then show ?thesis by (simp add: trim_def)
  next
    case False
    then have "\<not> is_trail (hd ?xs)" by (rule hd_dropWhile)
    with False show ?thesis by (simp add: trim_def last_rev)
  qed
qed

end
